theory Spec2Isabelle
  imports Complex_Main
begin

section \<open>Numbers\<close>

text \<open>
  The TypeScript type \<^verbatim>\<open>number\<close>: the finite values (every finite double is a rational;
  the two zeros are one value, which no operation of the program tells apart), NaN and
  the two infinities. Nothing in \<^verbatim>\<open>src/dayplanner.ts\<close> restricts a duration or a start
  time to whole numbers, so the store holds any of them.
\<close>

datatype number = Num rat | NaN | PosInf | NegInf

text \<open>\<^verbatim>\<open>x < y\<close>, \<^verbatim>\<open>x > y\<close> and \<^verbatim>\<open>x <= y\<close>: false as soon as one side is NaN.\<close>

fun numLt :: "number \<Rightarrow> number \<Rightarrow> bool" where
  "numLt (Num a) (Num b) = (a < b)"
| "numLt (Num a) PosInf = True"
| "numLt NegInf (Num b) = True"
| "numLt NegInf PosInf = True"
| "numLt _ _ = False"

definition numGt :: "number \<Rightarrow> number \<Rightarrow> bool" where
  "numGt x y = numLt y x"

definition numLe :: "number \<Rightarrow> number \<Rightarrow> bool" where
  "numLe x y \<longleftrightarrow> numLt x y \<or> (x = y \<and> x \<noteq> NaN)"

text \<open>
  \<^verbatim>\<open>x + y\<close>. The sum of two finite values is the exact sum, rounded by the runtime to a
  double or to an infinity: the rounding is a parameter \<open>rnd\<close> of every function that
  adds.
\<close>

type_synonym rounding = "rat \<Rightarrow> number"

fun numAdd :: "rounding \<Rightarrow> number \<Rightarrow> number \<Rightarrow> number" where
  "numAdd rnd (Num a) (Num b) = rnd (a + b)"
| "numAdd rnd NaN y = NaN"
| "numAdd rnd x NaN = NaN"
| "numAdd rnd PosInf NegInf = NaN"
| "numAdd rnd NegInf PosInf = NaN"
| "numAdd rnd PosInf y = PosInf"
| "numAdd rnd x PosInf = PosInf"
| "numAdd rnd NegInf y = NegInf"
| "numAdd rnd x NegInf = NegInf"

text \<open>\<^verbatim>\<open>Number.isInteger(x)\<close>, with the integer.\<close>

fun wholeOf :: "number \<Rightarrow> int option" where
  "wholeOf (Num r) = (if of_int \<lfloor>r\<rfloor> = r then Some \<lfloor>r\<rfloor> else None)"
| "wholeOf x = None"

text \<open>
  What the theorems below need of the rounding, and what the rounding of doubles has:
  it never yields NaN, it does not change a whole number up to \<open>2 ^ 53\<close>, and it is
  monotone.
\<close>

definition rounds :: "rounding \<Rightarrow> bool" where
  "rounds rnd \<longleftrightarrow>
     (\<forall>q. rnd q \<noteq> NaN)
     \<and> (\<forall>k::int. \<bar>k\<bar> \<le> 2 ^ 53 \<longrightarrow> rnd (of_int k) = Num (of_int k))
     \<and> (\<forall>p q. p \<le> q \<longrightarrow> \<not> numLt (rnd q) (rnd p))"

text \<open>
  The statement \<^verbatim>\<open>for (let i = 0; i < bound; i++) body\<close>, from the value \<open>i\<close> of the
  counter on. The body continues with a new state, or leaves the loop with one (a
  \<^verbatim>\<open>break\<close> or a \<^verbatim>\<open>throw\<close>). A loop that does not end has the value \<open>None\<close>.
\<close>

datatype 's step = Continue 's | Exit 's

partial_function (option) forLoop ::
  "rounding \<Rightarrow> (number \<Rightarrow> 's \<Rightarrow> 's step) \<Rightarrow> number \<Rightarrow> number \<Rightarrow> 's \<Rightarrow> 's option" where
  "forLoop rnd body bound i s =
     (if numLt i bound then
        (case body i s of
           Continue s' \<Rightarrow> forLoop rnd body bound (numAdd rnd i (Num 1)) s'
         | Exit s' \<Rightarrow> Some s')
      else Some s)"

declare forLoop.simps [code]

section \<open>DayPlanner: data model\<close>

text \<open>
  \<^verbatim>\<open>src/dayplanner.ts\<close> keeps two arrays, \<^verbatim>\<open>activities\<close> and \<^verbatim>\<open>assignments\<close>.
  Activities are JavaScript objects and are compared by identity (\<^verbatim>\<open>!==\<close>). The model
  gives every object the identity it was created with (\<open>ref\<close>); the program never
  changes the title or the duration of an activity, so two values are the same object
  exactly when they are equal as records. The field \<open>fresh\<close> of the planner stands for
  the allocator of the runtime: the objects created so far, by \<open>addActivity\<close> or by the
  caller, are those whose identity is below \<open>fresh\<close>.
\<close>

record activity =
  ref :: nat
  title :: string
  duration :: number

record assignment =
  activity :: activity
  startTime :: number

record planner =
  activities :: "activity list"
  assignments :: "assignment list"
  fresh :: nat

definition newPlanner :: planner where
  "newPlanner = \<lparr>activities = [], assignments = [], fresh = 0\<rparr>"

text \<open>Every object held by the store has been created.\<close>

definition alloc_ok :: "planner \<Rightarrow> bool" where
  "alloc_ok st \<longleftrightarrow>
     list_all (\<lambda>a. ref a < fresh st) (activities st) \<and>
     list_all (\<lambda>x. ref (activity x) < fresh st) (assignments st)"

section \<open>The direct operations\<close>

text \<open>\<^verbatim>\<open>addActivity\<close>, lines 21-28: no check of the title or of the duration.\<close>

definition addActivity :: "string \<Rightarrow> number \<Rightarrow> planner \<Rightarrow> activity \<times> planner" where
  "addActivity t d st =
     (let a = \<lparr>ref = fresh st, title = t, duration = d\<rparr>
      in (a, st\<lparr>activities := activities st @ [a], fresh := Suc (fresh st)\<rparr>))"

text \<open>\<^verbatim>\<open>removeActivity\<close>, lines 30-36.\<close>

definition removeActivity :: "activity \<Rightarrow> planner \<Rightarrow> planner" where
  "removeActivity a st =
     st\<lparr>assignments := filter (\<lambda>x. activity x \<noteq> a) (assignments st),
        activities := filter (\<lambda>b. b \<noteq> a) (activities st)\<rparr>"

text \<open>\<^verbatim>\<open>unassignActivity\<close>, lines 51-53.\<close>

definition unassignActivity :: "activity \<Rightarrow> planner \<Rightarrow> planner" where
  "unassignActivity a st =
     st\<lparr>assignments := filter (\<lambda>x. activity x \<noteq> a) (assignments st)\<rparr>"

text \<open>\<^verbatim>\<open>assignActivity\<close>, lines 38-49: no check of the start time.\<close>

definition assignActivity :: "activity \<Rightarrow> number \<Rightarrow> planner \<Rightarrow> planner" where
  "assignActivity a t st =
     (let st1 = unassignActivity a st
      in st1\<lparr>assignments := assignments st1 @ [\<lparr>activity = a, startTime = t\<rparr>]\<rparr>)"

text \<open>\<^verbatim>\<open>isAssigned\<close>, lines 90-93.\<close>

definition isAssigned :: "activity \<Rightarrow> planner \<Rightarrow> bool" where
  "isAssigned a st = list_ex (\<lambda>x. activity x = a) (assignments st)"

text \<open>
  The caller creates an object of its own (an object literal of the type
  \<^verbatim>\<open>Activity\<close>, say): the allocator moves on, the store does not change.
\<close>

definition callerCreates :: "planner \<Rightarrow> planner" where
  "callerCreates st = st\<lparr>fresh := Suc (fresh st)\<rparr>"

section \<open>Issues and errors\<close>

text \<open>
  What the validation of a batch records, one constructor for each message of lines
  190, 197, 203, 210, 215, 221 and 230, with the values the message quotes: the title,
  the start time, and for a conflict the slot, the title of its occupant and the title
  of the proposal.
\<close>

datatype issue =
    NotAnObject
  | MissingTitle
  | NoOccurrences string
  | NonIntegerStart string
  | OutOfRangeStart string number
  | PastEndOfDay string
  | SlotTaken number string string

text \<open>
  The code throws plain \<^verbatim>\<open>Error\<close> objects that differ in their message, and the runtime
  throws \<^verbatim>\<open>SyntaxError\<close> (from \<^verbatim>\<open>JSON.parse\<close>) and \<^verbatim>\<open>TypeError\<close>. One constructor each:
  \<open>NoJsonFound\<close> is 'No JSON found in response', \<open>InvalidResponseFormat\<close> is 'Invalid
  response format', and \<open>DisallowedAssignments is\<close> is the error of line 250, whose
  message is the header 'LLM provided disallowed assignments:' followed by every element
  of \<open>is\<close>, one per line. \<open>PlannerFailure\<close> is whatever the call to the planner throws.
\<close>

datatype error =
    NoJsonFound
  | JsonSyntaxError
  | InvalidResponseFormat
  | DisallowedAssignments "issue list"
  | PlannerFailure
  | TypeError

section \<open>getSchedule\<close>

text \<open>
  Lines 268-291. The schedule object has the keys 0..47, so \<^verbatim>\<open>schedule[slot]\<close> is an
  array when \<open>slot\<close> is one of these whole numbers and \<^verbatim>\<open>undefined\<close> for every other
  number (a negative one, a fraction); \<^verbatim>\<open>undefined.push\<close> throws a TypeError. The guard
  of line 284 only keeps out the slots that are not below 48.
\<close>

definition emptySchedule :: "int \<rightharpoonup> activity list" where
  "emptySchedule = (\<lambda>i. if 0 \<le> i \<and> i < 48 then Some [] else None)"

definition scheduleAt :: "(int \<rightharpoonup> activity list) \<Rightarrow> number \<Rightarrow> (int \<times> activity list) option" where
  "scheduleAt schedule slot =
     (case wholeOf slot of
        None \<Rightarrow> None
      | Some k \<Rightarrow> (case schedule k of None \<Rightarrow> None | Some l \<Rightarrow> Some (k, l)))"

text \<open>The body of the loop of lines 282-287, on the schedule or the error thrown.\<close>

definition placeSlot ::
  "rounding \<Rightarrow> assignment \<Rightarrow> number \<Rightarrow> error + (int \<rightharpoonup> activity list)
     \<Rightarrow> (error + (int \<rightharpoonup> activity list)) step" where
  "placeSlot rnd x i s =
     (case s of
        Inl e \<Rightarrow> Exit (Inl e)
      | Inr schedule \<Rightarrow>
          let slot = numAdd rnd (startTime x) i
          in if numLt slot (Num 48) then
               (case scheduleAt schedule slot of
                  None \<Rightarrow> Exit (Inl TypeError)
                | Some (k, l) \<Rightarrow> Continue (Inr (schedule(k \<mapsto> l @ [activity x]))))
             else Continue (Inr schedule))"

fun placeAssignments ::
  "rounding \<Rightarrow> (int \<rightharpoonup> activity list) \<Rightarrow> assignment list
     \<Rightarrow> (error + (int \<rightharpoonup> activity list)) option" where
  "placeAssignments rnd schedule [] = Some (Inr schedule)"
| "placeAssignments rnd schedule (x # xs) =
     (case forLoop rnd (placeSlot rnd x) (duration (activity x)) (Num 0) (Inr schedule) of
        None \<Rightarrow> None
      | Some (Inl e) \<Rightarrow> Some (Inl e)
      | Some (Inr schedule') \<Rightarrow> placeAssignments rnd schedule' xs)"

text \<open>What the call returns or throws; \<open>None\<close> when it does not return.\<close>

definition getSchedule :: "rounding \<Rightarrow> planner \<Rightarrow> (error + (int \<rightharpoonup> activity list)) option" where
  "getSchedule rnd st = placeAssignments rnd emptySchedule (assignments st)"

text \<open>
  An assignment covers the slot \<open>s\<close>: its start is a whole number \<open>k\<close> and \<open>s\<close> is \<open>k\<close> plus
  an offset below the duration. \<open>covering st s\<close> lists the activities whose assignment
  covers \<open>s\<close>, in the order of the assignments.
\<close>

definition covers :: "assignment \<Rightarrow> int \<Rightarrow> bool" where
  "covers x s =
     (case wholeOf (startTime x) of
        None \<Rightarrow> False
      | Some k \<Rightarrow> k \<le> s \<and> numLt (Num (of_int (s - k))) (duration (activity x)))"

definition covering :: "planner \<Rightarrow> int \<Rightarrow> activity list" where
  "covering st s = map activity (filter (\<lambda>x. covers x s) (assignments st))"

section \<open>The planner's reply\<close>

text \<open>
  A parsed JSON value. \<open>JNum\<close> carries the number \<^verbatim>\<open>JSON.parse\<close> made of the literal
  (an infinity for a literal beyond the doubles). \<open>JObj\<close> lists the properties of the
  parsed object, each key once. \<^verbatim>\<open>JSON.parse\<close> itself is a parameter \<open>jsonParse\<close> of the
  functions below (\<open>None\<close> when it throws).
\<close>

datatype json =
    JNull
  | JBool bool
  | JNum number
  | JStr string
  | JArr "json list"
  | JObj "(string \<times> json) list"

text \<open>
  Reading the property \<open>k\<close> of a value, for the keys the code reads (\<^verbatim>\<open>assignments\<close>,
  \<^verbatim>\<open>title\<close>, \<^verbatim>\<open>startTime\<close>): \<open>None\<close> is \<^verbatim>\<open>undefined\<close>. Only an object has them. (The
  text handed to \<^verbatim>\<open>JSON.parse\<close> starts with a brace, so what it returns is an object.)
\<close>

definition member :: "json \<Rightarrow> string \<Rightarrow> json option" where
  "member v k = (case v of JObj kvs \<Rightarrow> map_of kvs k | _ \<Rightarrow> None)"

definition truthy :: "json option \<Rightarrow> bool" where
  "truthy x =
     (case x of
        None \<Rightarrow> False
      | Some JNull \<Rightarrow> False
      | Some (JBool b) \<Rightarrow> b
      | Some (JNum n) \<Rightarrow> n \<noteq> Num 0 \<and> n \<noteq> NaN
      | Some (JStr s) \<Rightarrow> s \<noteq> []
      | Some (JArr xs) \<Rightarrow> True
      | Some (JObj kvs) \<Rightarrow> True)"

definition isArray :: "json option \<Rightarrow> bool" where
  "isArray x = (case x of Some (JArr xs) \<Rightarrow> True | _ \<Rightarrow> False)"

definition elements :: "json option \<Rightarrow> json list" where
  "elements x = (case x of Some (JArr xs) \<Rightarrow> xs | _ \<Rightarrow> [])"

text \<open>\<^verbatim>\<open>typeof v === 'object' && v !== null\<close>: objects and arrays.\<close>

definition isObject :: "json \<Rightarrow> bool" where
  "isObject v = (case v of JArr xs \<Rightarrow> True | JObj kvs \<Rightarrow> True | _ \<Rightarrow> False)"

text \<open>\<^verbatim>\<open>typeof v === 'string'\<close>, with the string.\<close>

definition asString :: "json option \<Rightarrow> string option" where
  "asString x = (case x of Some (JStr s) \<Rightarrow> Some s | _ \<Rightarrow> None)"

text \<open>\<^verbatim>\<open>typeof v === 'number' && Number.isInteger(v)\<close>, with the number.\<close>

definition asInteger :: "json option \<Rightarrow> number option" where
  "asInteger x =
     (case x of
        Some (JNum n) \<Rightarrow> if wholeOf n = None then None else Some n
      | _ \<Rightarrow> None)"

text \<open>
  \<^verbatim>\<open>String.prototype.trim\<close>. A \<open>char\<close> is a code unit below 256; the white space and
  line terminators of JavaScript among these are tab, LF, VT, FF, CR, space and the
  no-break space.
\<close>

definition isSpace :: "char \<Rightarrow> bool" where
  "isSpace c \<longleftrightarrow>
     c \<in> {CHR 0x09, CHR 0x0A, CHR 0x0B, CHR 0x0C, CHR 0x0D, CHR '' '', CHR 0xA0}"

definition trim :: "string \<Rightarrow> string" where
  "trim s = rev (dropWhile isSpace (rev (dropWhile isSpace s)))"

text \<open>
  Line 158, \<^verbatim>\<open>responseText.match(/\{[\s\S]*\}/)\<close>: the match starts at the first opening
  brace and, the star being greedy, ends at the last closing brace after it.
\<close>

definition jsonMatch :: "string \<Rightarrow> string option" where
  "jsonMatch s =
     (let r = dropWhile (\<lambda>c. c \<noteq> CHR ''{'') s;
          m = rev (dropWhile (\<lambda>c. c \<noteq> CHR ''}'') (rev r))
      in if m = [] then None else Some m)"

section \<open>Validation of a batch\<close>

record vstate =
  activitiesByTitle :: "string \<rightharpoonup> activity list"
  issues :: "issue list"
  validatedAssignments :: "(activity \<times> number) list"
  occupiedSlots :: "number \<rightharpoonup> activity"

text \<open>Lines 171-176: the unassigned activities, grouped by title in their order.\<close>

definition addToPool :: "(string \<rightharpoonup> activity list) \<Rightarrow> activity \<Rightarrow> (string \<rightharpoonup> activity list)" where
  "addToPool m a = m(title a \<mapsto> (case m (title a) of None \<Rightarrow> [] | Some l \<Rightarrow> l) @ [a])"

definition groupByTitle :: "activity list \<Rightarrow> (string \<rightharpoonup> activity list)" where
  "groupByTitle un = foldl addToPool Map.empty un"

text \<open>
  Lines 183-185 and 242-244: mark every slot of an activity placed at \<open>t\<close>. The keys of
  the \<^verbatim>\<open>Map\<close> are numbers.
\<close>

definition markSlot ::
  "rounding \<Rightarrow> activity \<Rightarrow> number \<Rightarrow> number \<Rightarrow> (number \<rightharpoonup> activity) \<Rightarrow> (number \<rightharpoonup> activity) step" where
  "markSlot rnd a t offset occ = Continue (occ(numAdd rnd t offset \<mapsto> a))"

definition occupy ::
  "rounding \<Rightarrow> (number \<rightharpoonup> activity) \<Rightarrow> activity \<Rightarrow> number \<Rightarrow> (number \<rightharpoonup> activity) option" where
  "occupy rnd occ a t = forLoop rnd (markSlot rnd a t) (duration a) (Num 0) occ"

fun seedFrom ::
  "rounding \<Rightarrow> (number \<rightharpoonup> activity) \<Rightarrow> assignment list \<Rightarrow> (number \<rightharpoonup> activity) option" where
  "seedFrom rnd occ [] = Some occ"
| "seedFrom rnd occ (x # xs) =
     (case occupy rnd occ (activity x) (startTime x) of
        None \<Rightarrow> None
      | Some occ' \<Rightarrow> seedFrom rnd occ' xs)"

definition seedOccupied :: "rounding \<Rightarrow> assignment list \<Rightarrow> (number \<rightharpoonup> activity) option" where
  "seedOccupied rnd xs = seedFrom rnd Map.empty xs"

text \<open>
  Lines 225-234: the first occupied slot, with its occupant; the loop stops there
  (\<^verbatim>\<open>break\<close>).
\<close>

definition checkSlot ::
  "rounding \<Rightarrow> (number \<rightharpoonup> activity) \<Rightarrow> number \<Rightarrow> number \<Rightarrow> (number \<times> activity) option
     \<Rightarrow> (number \<times> activity) option step" where
  "checkSlot rnd occ t offset found =
     (let slot = numAdd rnd t offset
      in case occ slot of
           Some b \<Rightarrow> Exit (Some (slot, b))
         | None \<Rightarrow> Continue found)"

definition firstConflict ::
  "rounding \<Rightarrow> (number \<rightharpoonup> activity) \<Rightarrow> number \<Rightarrow> number \<Rightarrow> (number \<times> activity) option option" where
  "firstConflict rnd occ t d = forLoop rnd (checkSlot rnd occ t) d (Num 0) None"

definition pushIssue :: "issue \<Rightarrow> vstate \<Rightarrow> vstate" where
  "pushIssue i v = v\<lparr>issues := issues v @ [i]\<rparr>"

text \<open>
  The body of the loop of lines 188-247. \<open>v1\<close> is the state after \<^verbatim>\<open>pool.shift()\<close>; only
  the branch of a conflict puts the activity back (\<^verbatim>\<open>pool.unshift(activity)\<close>). \<open>None\<close>
  when one of the two inner loops does not end.
\<close>

definition validateOne :: "rounding \<Rightarrow> vstate \<Rightarrow> json \<Rightarrow> vstate option" where
  "validateOne rnd v rawAssignment =
     (if \<not> isObject rawAssignment then Some (pushIssue NotAnObject v)
      else case asString (member rawAssignment ''title'') of
        None \<Rightarrow> Some (pushIssue MissingTitle v)
      | Some ttl \<Rightarrow>
          if trim ttl = [] then Some (pushIssue MissingTitle v)
          else case activitiesByTitle v ttl of
            None \<Rightarrow> Some (pushIssue (NoOccurrences ttl) v)
          | Some [] \<Rightarrow> Some (pushIssue (NoOccurrences ttl) v)
          | Some (a # pool) \<Rightarrow>
              let v1 = v\<lparr>activitiesByTitle := (activitiesByTitle v)(ttl \<mapsto> pool)\<rparr>
              in case asInteger (member rawAssignment ''startTime'') of
                None \<Rightarrow> Some (pushIssue (NonIntegerStart ttl) v1)
              | Some t \<Rightarrow>
                  if numLt t (Num 0) \<or> numGt t (Num 47)
                  then Some (pushIssue (OutOfRangeStart ttl t) v1)
                  else if numGt (numAdd rnd t (duration a)) (Num 48)
                  then Some (pushIssue (PastEndOfDay ttl) v1)
                  else case firstConflict rnd (occupiedSlots v1) t (duration a) of
                    None \<Rightarrow> None
                  | Some (Some (slot, b)) \<Rightarrow>
                      Some (pushIssue (SlotTaken slot (title b) ttl)
                        (v1\<lparr>activitiesByTitle := (activitiesByTitle v1)(ttl \<mapsto> a # pool)\<rparr>))
                  | Some None \<Rightarrow>
                      (case occupy rnd (occupiedSlots v1) a t of
                         None \<Rightarrow> None
                       | Some occ \<Rightarrow>
                           Some (v1\<lparr>occupiedSlots := occ,
                                   validatedAssignments := validatedAssignments v1 @ [(a, t)]\<rparr>)))"

fun validateLoop :: "rounding \<Rightarrow> vstate \<Rightarrow> json list \<Rightarrow> vstate option" where
  "validateLoop rnd v [] = Some v"
| "validateLoop rnd v (rawAssignment # raws) =
     (case validateOne rnd v rawAssignment of
        None \<Rightarrow> None
      | Some v' \<Rightarrow> validateLoop rnd v' raws)"

text \<open>Lines 171-186: the state the loop over the proposals starts from.\<close>

definition initialValidation :: "rounding \<Rightarrow> planner \<Rightarrow> activity list \<Rightarrow> vstate option" where
  "initialValidation rnd st unassignedActivities =
     (case seedOccupied rnd (assignments st) of
        None \<Rightarrow> None
      | Some occ \<Rightarrow>
          Some \<lparr>activitiesByTitle = groupByTitle unassignedActivities,
                issues = [],
                validatedAssignments = [],
                occupiedSlots = occ\<rparr>)"

definition validateAll :: "rounding \<Rightarrow> planner \<Rightarrow> activity list \<Rightarrow> json list \<Rightarrow> vstate option" where
  "validateAll rnd st unassignedActivities raws =
     (case initialValidation rnd st unassignedActivities of
        None \<Rightarrow> None
      | Some v \<Rightarrow> validateLoop rnd v raws)"

text \<open>Lines 253-256.\<close>

definition applyAssignments :: "planner \<Rightarrow> (activity \<times> number) list \<Rightarrow> planner" where
  "applyAssignments st vs = foldl (\<lambda>s (a, t). assignActivity a t s) st vs"

text \<open>
  \<^verbatim>\<open>parseAndApplyAssignments\<close>, lines 155-263. The result is what the call throws, if it
  throws, and the store after the call; \<open>None\<close> when the call does not return.
\<close>

definition parseAndApplyAssignments ::
  "rounding \<Rightarrow> (string \<Rightarrow> json option) \<Rightarrow> string \<Rightarrow> activity list \<Rightarrow> planner
     \<Rightarrow> ((error + unit) \<times> planner) option" where
  "parseAndApplyAssignments rnd jsonParse responseText unassignedActivities st =
     (case jsonMatch responseText of
        None \<Rightarrow> Some (Inl NoJsonFound, st)
      | Some m \<Rightarrow>
          (case jsonParse m of
             None \<Rightarrow> Some (Inl JsonSyntaxError, st)
           | Some response \<Rightarrow>
               if \<not> truthy (member response ''assignments'')
                  \<or> \<not> isArray (member response ''assignments'')
               then Some (Inl InvalidResponseFormat, st)
               else
                 (case validateAll rnd st unassignedActivities
                         (elements (member response ''assignments'')) of
                    None \<Rightarrow> None
                  | Some v \<Rightarrow>
                      if issues v \<noteq> [] then Some (Inl (DisallowedAssignments (issues v)), st)
                      else Some (Inr (), applyAssignments st (validatedAssignments v)))))"

text \<open>
  \<^verbatim>\<open>assignActivities\<close>, lines 55-84. \<open>llm\<close> is the outcome of \<^verbatim>\<open>llm.executeLLM(prompt)\<close>:
  the text of the reply, or what the call throws.
\<close>

definition assignActivities ::
  "rounding \<Rightarrow> (string \<Rightarrow> json option) \<Rightarrow> error + string \<Rightarrow> planner
     \<Rightarrow> ((error + unit) \<times> planner) option" where
  "assignActivities rnd jsonParse llm st =
     (let unassignedActivities = filter (\<lambda>a. \<not> isAssigned a st) (activities st)
      in if unassignedActivities = [] then Some (Inr (), st)
         else case llm of
           Inl e \<Rightarrow> Some (Inl e, st)
         | Inr text \<Rightarrow> parseAndApplyAssignments rnd jsonParse text unassignedActivities st)"

section \<open>Example data\<close>

text \<open>
  \<open>parseAs src v\<close> stands for \<^verbatim>\<open>JSON.parse\<close> in the examples: it knows the one text
  \<open>src\<close>, whose value is \<open>v\<close>, and rejects every other text. It is only applied to \<open>src\<close>
  and to texts that are not JSON. \<open>exactly\<close> is the rounding of the examples: every sum
  formed in them is a whole number or a half below 100, which a double holds exactly.
\<close>

definition parseAs :: "string \<Rightarrow> json \<Rightarrow> string \<Rightarrow> json option" where
  "parseAs src v s = (if s = src then Some v else None)"

definition exactly :: rounding where
  "exactly q = Num q"

definition proposal :: "string \<Rightarrow> rat \<Rightarrow> json" where
  "proposal ttl t = JObj [(''title'', JStr ttl), (''startTime'', JNum (Num t))]"

definition payload :: "json list \<Rightarrow> json" where
  "payload raws = JObj [(''assignments'', JArr raws)]"

definition study1 :: activity where
  "study1 = \<lparr>ref = 0, title = ''Study'', duration = Num 2\<rparr>"

definition study2 :: activity where
  "study2 = \<lparr>ref = 1, title = ''Study'', duration = Num 3\<rparr>"

definition lunch :: activity where
  "lunch = \<lparr>ref = 2, title = ''Lunch'', duration = Num 1\<rparr>"

text \<open>Two activities titled Study, created in this order, and Lunch; nothing assigned.\<close>

definition studyPlanner :: planner where
  "studyPlanner = \<lparr>activities = [study1, study2, lunch], assignments = [], fresh = 3\<rparr>"

definition nap :: activity where
  "nap = \<lparr>ref = 3, title = ''Nap'', duration = Num 4\<rparr>"

text \<open>The planner of the examples as the operations build it, and two replies.\<close>

definition studyPlanner' :: planner where
  "studyPlanner' =
     snd (addActivity ''Lunch'' (Num 1)
       (snd (addActivity ''Study'' (Num 3) (snd (addActivity ''Study'' (Num 2) newPlanner)))))"

definition studyReply :: string where
  "studyReply =
     ''{\"assignments\":[{\"title\":\"Study\",\"startTime\":20},{\"title\":\"Study\",\"startTime\":10}]}''"

definition conflictReply :: string where
  "conflictReply =
     ''{\"assignments\":[{\"title\":\"Study\",\"startTime\":10},{\"title\":\"Study\",\"startTime\":20}]}''"

text \<open>An activity whose duration is NaN, and a reply that places it at slot 5.\<close>

definition nanPlanner :: planner where
  "nanPlanner = snd (addActivity ''Walk'' NaN newPlanner)"

definition walkReply :: string where
  "walkReply = ''{\"assignments\":[{\"title\":\"Walk\",\"startTime\":5}]}''"

text \<open>The store after the reply \<open>studyReply\<close> has been applied to \<open>studyPlanner\<close>.\<close>

definition plannedDay :: planner where
  "plannedDay =
     \<lparr>activities = [study1, study2, lunch],
      assignments = [\<lparr>activity = study1, startTime = Num 20\<rparr>,
                     \<lparr>activity = study2, startTime = Num 10\<rparr>],
      fresh = 3\<rparr>"

definition endless :: activity where
  "endless = \<lparr>ref = 0, title = ''Nap'', duration = PosInf\<rparr>"

definition walk :: activity where
  "walk = \<lparr>ref = 0, title = ''Walk'', duration = NaN\<rparr>"

section \<open>Notions used to state the properties\<close>

text \<open>
  \<^verbatim>\<open>startTime + activity.duration <= 48\<close>: the activity placed at \<open>t\<close> fits the day of 48
  slots.
\<close>

definition fits :: "rounding \<Rightarrow> activity \<Rightarrow> number \<Rightarrow> bool" where
  "fits rnd a t \<longleftrightarrow> numLe (numAdd rnd t (duration a)) (Num 48)"

definition fitsDay :: "rounding \<Rightarrow> assignment \<Rightarrow> bool" where
  "fitsDay rnd x \<longleftrightarrow> fits rnd (activity x) (startTime x)"

definition allFit :: "rounding \<Rightarrow> planner \<Rightarrow> bool" where
  "allFit rnd st \<longleftrightarrow> list_all (fitsDay rnd) (assignments st)"

definition dayInvariant :: "rounding \<Rightarrow> planner \<Rightarrow> bool" where
  "dayInvariant rnd st \<longleftrightarrow>
     list_all (\<lambda>x. duration (activity x) = NaN \<or> fitsDay rnd x) (assignments st)"

text \<open>
  The states reached from the empty planner by the public operations and by the caller
  creating objects of its own. The activity handed to \<open>assignActivity\<close> is an object that
  exists; \<open>ok\<close> says which direct calls of \<open>assignActivity\<close> are made. The batch operation
  is run with any \<^verbatim>\<open>JSON.parse\<close> and any outcome of the planner, and leads to a state
  when it returns or throws.
\<close>

inductive reachable :: "rounding \<Rightarrow> (activity \<Rightarrow> number \<Rightarrow> bool) \<Rightarrow> planner \<Rightarrow> bool"
  for rnd :: rounding and ok :: "activity \<Rightarrow> number \<Rightarrow> bool" where
  start: "reachable rnd ok newPlanner"
| add: "reachable rnd ok st \<Longrightarrow> reachable rnd ok (snd (addActivity t d st))"
| create: "reachable rnd ok st \<Longrightarrow> reachable rnd ok (callerCreates st)"
| remove: "reachable rnd ok st \<Longrightarrow> reachable rnd ok (removeActivity a st)"
| assign: "reachable rnd ok st \<Longrightarrow> ref a < fresh st \<Longrightarrow> ok a t
     \<Longrightarrow> reachable rnd ok (assignActivity a t st)"
| unassign: "reachable rnd ok st \<Longrightarrow> reachable rnd ok (unassignActivity a st)"
| batch: "reachable rnd ok st \<Longrightarrow> assignActivities rnd jsonParse llm st = Some (outcome, st')
     \<Longrightarrow> reachable rnd ok st'"

definition anyStart :: "activity \<Rightarrow> number \<Rightarrow> bool" where
  "anyStart a t \<longleftrightarrow> True"

text \<open>The title and the start time a proposal names, when it names them.\<close>

definition proposalTitle :: "json \<Rightarrow> string option" where
  "proposalTitle raw = asString (member raw ''title'')"

definition proposalStart :: "json \<Rightarrow> number option" where
  "proposalStart raw = asInteger (member raw ''startTime'')"

definition proposalsFor :: "string \<Rightarrow> json list \<Rightarrow> json list" where
  "proposalsFor ttl raws = filter (\<lambda>raw. proposalTitle raw = Some ttl) raws"

definition titled :: "string \<Rightarrow> activity list \<Rightarrow> activity list" where
  "titled ttl as = filter (\<lambda>a. title a = ttl) as"

definition poolOf :: "vstate \<Rightarrow> string \<Rightarrow> activity list" where
  "poolOf v ttl = (case activitiesByTitle v ttl of None \<Rightarrow> [] | Some l \<Rightarrow> l)"

definition poolsTitled :: "vstate \<Rightarrow> bool" where
  "poolsTitled v \<longleftrightarrow> (\<forall>ttl l. activitiesByTitle v ttl = Some l \<longrightarrow> (\<forall>a\<in>set l. title a = ttl))"

text \<open>
  The loop \<^verbatim>\<open>for (i = 0; i < d; i++)\<close> ends when \<open>d\<close> is not above \<open>2 ^ 53\<close>; beyond, the
  counter stops growing (and \<open>d\<close> may be infinite).
\<close>

definition loopEnds :: "number \<Rightarrow> bool" where
  "loopEnds d \<longleftrightarrow> \<not> numGt d (Num (2 ^ 53))"

text \<open>A start time that is a whole number, not negative.\<close>

definition wholeStart :: "number \<Rightarrow> bool" where
  "wholeStart t = (case wholeOf t of None \<Rightarrow> False | Some k \<Rightarrow> 0 \<le> k)"

text \<open>
  The number of rounds of an ending loop \<^verbatim>\<open>for (i = 0; i < d; i++)\<close>, and the loop over
  a list of whole offsets: what \<open>forLoop\<close> computes when it ends.
\<close>

definition iterations :: "number \<Rightarrow> nat" where
  "iterations d = (case d of Num r \<Rightarrow> nat \<lceil>r\<rceil> | _ \<Rightarrow> 0)"

fun run :: "(nat \<Rightarrow> 's \<Rightarrow> 's step) \<Rightarrow> nat list \<Rightarrow> 's \<Rightarrow> 's" where
  "run body [] s = s"
| "run body (k # ks) s = (case body k s of Continue s' \<Rightarrow> run body ks s' | Exit s' \<Rightarrow> s')"

text \<open>
  What the loop of lines 188-247 has checked of a pair before it lists it as validated:
  the start is a whole number and \<^verbatim>\<open>startTime + activity.duration > 48\<close> is false.
\<close>

definition checked :: "rounding \<Rightarrow> activity \<times> number \<Rightarrow> bool" where
  "checked rnd p \<longleftrightarrow> wholeOf (snd p) \<noteq> None
     \<and> \<not> numGt (numAdd rnd (snd p) (duration (fst p))) (Num 48)"

text \<open>Every activity in a queue or in the validated list is one of \<open>A\<close>.\<close>

definition heldIn :: "activity set \<Rightarrow> vstate \<Rightarrow> bool" where
  "heldIn A v \<longleftrightarrow>
     (\<forall>ttl l. activitiesByTitle v ttl = Some l \<longrightarrow> set l \<subseteq> A)
     \<and> fst ` set (validatedAssignments v) \<subseteq> A"

text \<open>An object of the caller's own, not made by \<open>addActivity\<close>.\<close>

definition gym0 :: activity where
  "gym0 = \<lparr>ref = 0, title = ''Gym'', duration = Num 2\<rparr>"

section \<open>Properties of the direct operations\<close>

lemma assignments_unassignActivity:
  "assignments (unassignActivity a st) = filter (\<lambda>x. activity x \<noteq> a) (assignments st)"
  by (simp add: unassignActivity_def)

lemma assignments_assignActivity:
  "assignments (assignActivity a t st) =
     filter (\<lambda>x. activity x \<noteq> a) (assignments st) @ [\<lparr>activity = a, startTime = t\<rparr>]"
  by (simp add: assignActivity_def unassignActivity_def)

lemma activities_assignActivity:
  "activities (assignActivity a t st) = activities st"
  by (simp add: assignActivity_def unassignActivity_def)

lemma fresh_assignActivity:
  "fresh (assignActivity a t st) = fresh st"
  by (simp add: assignActivity_def unassignActivity_def)

lemma rounds_exactly: "rounds exactly"
  by (simp add: rounds_def exactly_def)

text \<open>
  C7: calling \<open>assignActivity a t\<close> twice in succession leaves exactly one assignment
  for \<open>a\<close>, and its start time is \<open>t\<close>; the second call changes nothing.
\<close>

theorem assignActivity_twice:
  "filter (\<lambda>x. activity x = a) (assignments (assignActivity a t (assignActivity a t st)))
     = [\<lparr>activity = a, startTime = t\<rparr>]
   \<and> assignActivity a t (assignActivity a t st) = assignActivity a t st"
proof -
  have none: "filter (\<lambda>x. activity x = a) (filter (\<lambda>x. activity x \<noteq> a) xs) = []"
    for xs :: "assignment list"
    by (induction xs) auto
  have same: "assignActivity a t (assignActivity a t st) = assignActivity a t st"
    by (simp add: assignActivity_def unassignActivity_def)
  have "filter (\<lambda>x. activity x = a) (assignments (assignActivity a t st))
      = [\<lparr>activity = a, startTime = t\<rparr>]"
    by (simp add: assignments_assignActivity none)
  with same show ?thesis by simp
qed

text \<open>
  C8: \<open>unassignActivity a\<close> leaves no assignment of \<open>a\<close>, keeps every other assignment
  and the activities, and when \<open>a\<close> has no assignment the store is unchanged.
\<close>

theorem unassignActivity_tolerant:
  "\<not> isAssigned a (unassignActivity a st)
   \<and> filter (\<lambda>x. activity x \<noteq> a) (assignments (unassignActivity a st))
       = filter (\<lambda>x. activity x \<noteq> a) (assignments st)
   \<and> activities (unassignActivity a st) = activities st
   \<and> (\<not> isAssigned a st \<longrightarrow> unassignActivity a st = st)"
proof -
  have "\<not> isAssigned a st \<Longrightarrow> filter (\<lambda>x. activity x \<noteq> a) (assignments st) = assignments st"
    by (simp add: isAssigned_def list_ex_iff filter_id_conv)
  then show ?thesis
    by (simp add: isAssigned_def list_ex_iff unassignActivity_def)
qed

theorem unassignActivity_tolerant_witness:
  "\<not> isAssigned gym0 \<lparr>activities = [gym0], assignments = [], fresh = 1\<rparr>
   \<and> unassignActivity gym0 \<lparr>activities = [gym0], assignments = [], fresh = 1\<rparr>
     = \<lparr>activities = [gym0], assignments = [], fresh = 1\<rparr>"
  using unassignActivity_tolerant
    [of gym0 "\<lparr>activities = [gym0], assignments = [], fresh = 1\<rparr>"]
  by (simp add: isAssigned_def)

text \<open>
  C9: after \<open>assignActivity a t\<close>, \<open>removeActivity a\<close> leaves no assignment that
  references \<open>a\<close> (and \<open>a\<close> is no longer among the activities).
\<close>

theorem removeActivity_cascades:
  "filter (\<lambda>x. activity x = a) (assignments (removeActivity a (assignActivity a t st))) = []
   \<and> \<not> isAssigned a (removeActivity a (assignActivity a t st))
   \<and> a \<notin> set (activities (removeActivity a (assignActivity a t st)))"
  by (auto simp add: removeActivity_def isAssigned_def list_ex_iff assignments_assignActivity
      filter_empty_conv)

section \<open>Loops that end, and one that does not\<close>

lemma rounds_exact:
  assumes "rounds rnd" and "\<bar>k\<bar> \<le> 2 ^ 53"
  shows "rnd (of_int k) = Num (of_int k)"
  using assms by (simp add: rounds_def)

lemma rounds_mono:
  assumes "rounds rnd" and "p \<le> q"
  shows "\<not> numLt (rnd q) (rnd p)"
  using assms by (simp add: rounds_def)

lemma rounds_not_NaN:
  assumes "rounds rnd"
  shows "rnd q \<noteq> NaN"
  using assms by (simp add: rounds_def)

lemma forLoop_stop:
  assumes "\<not> numLt i bound"
  shows "forLoop rnd body bound i s = Some s"
  using assms by (subst forLoop.simps) simp

lemma forLoop_finite:
  assumes rnd: "rounds rnd" and bound: "r \<le> 2 ^ 53"
  shows "forLoop rnd body (Num r) (Num (of_nat i)) s
           = Some (run (\<lambda>k. body (Num (of_nat k))) [i..<nat \<lceil>r\<rceil>] s)"
proof (induction "nat \<lceil>r\<rceil> - i" arbitrary: i s)
  case 0
  then have "\<lceil>r\<rceil> \<le> int i" by simp
  then have "r \<le> of_nat i"
    by (metis ceiling_le_iff of_int_of_nat_eq)
  then have "\<not> numLt (Num (of_nat i)) (Num r)" by simp
  then have stop: "forLoop rnd body (Num r) (Num (of_nat i)) s = Some s"
    by (rule forLoop_stop)
  from 0 have "nat \<lceil>r\<rceil> \<le> i" by simp
  then have "run (\<lambda>k. body (Num (of_nat k))) [i..<nat \<lceil>r\<rceil>] s = s"
    by (simp only: upt_conv_Nil run.simps)
  with stop show ?case by simp
next
  case (Suc n)
  then have less: "i < nat \<lceil>r\<rceil>" by simp
  then have "int i < \<lceil>r\<rceil>" by simp
  then have lt: "of_nat i < r"
    by (metis less_ceiling_iff of_int_of_nat_eq)
  from less_le_trans [OF lt bound] have "(of_nat i :: rat) < 2 ^ 53" .
  then have "(of_nat i :: rat) < of_nat (2 ^ 53)" by simp
  then have "i < 2 ^ 53" by (simp only: of_nat_less_iff)
  then have "\<bar>int (Suc i)\<bar> \<le> 2 ^ 53" by simp
  from rounds_exact [OF rnd this]
  have next_i: "numAdd rnd (Num (of_nat i)) (Num 1) = Num (of_nat (Suc i))"
    by (simp add: add.commute)
  from less have list: "[i..<nat \<lceil>r\<rceil>] = i # [Suc i..<nat \<lceil>r\<rceil>]"
    by (simp add: upt_conv_Cons)
  from Suc(2) have "n = nat \<lceil>r\<rceil> - Suc i" by simp
  note IH = Suc(1) [OF this]
  from lt have "numLt (Num (of_nat i)) (Num r)" by simp
  then have step: "forLoop rnd body (Num r) (Num (of_nat i)) s =
      (case body (Num (of_nat i)) s of
         Continue s' \<Rightarrow> forLoop rnd body (Num r) (numAdd rnd (Num (of_nat i)) (Num 1)) s'
       | Exit s' \<Rightarrow> Some s')"
    by (subst forLoop.simps) (simp only: if_True)
  show ?case
  proof (cases "body (Num (of_nat i)) s")
    case (Continue s')
    then show ?thesis
      by (simp only: step next_i IH list run.simps step.case)
  next
    case (Exit s')
    then show ?thesis
      by (simp only: step list run.simps step.case)
  qed
qed

lemma forLoop_ends:
  assumes "rounds rnd" and "loopEnds d"
  shows "forLoop rnd body d (Num 0) s
           = Some (run (\<lambda>k. body (Num (of_nat k))) [0..<iterations d] s)"
proof (cases d)
  case (Num r)
  with assms(2) have "r \<le> 2 ^ 53" by (simp add: loopEnds_def numGt_def)
  from forLoop_finite [OF assms(1) this, of body 0 s] Num show ?thesis
    by (simp add: iterations_def)
next
  case NaN
  then show ?thesis by (simp add: forLoop_stop iterations_def)
next
  case PosInf
  with assms(2) show ?thesis by (simp add: loopEnds_def numGt_def)
next
  case NegInf
  then show ?thesis by (simp add: forLoop_stop iterations_def)
qed

text \<open>
  With an infinite bound the loop does not end, as long as its body continues: the
  counter stays finite.
\<close>

lemma forLoop_forever:
  assumes body: "\<And>q s. 0 \<le> q \<Longrightarrow> keeps s \<Longrightarrow> \<exists>s'. body (Num q) s = Continue s' \<and> keeps s'"
    and "0 \<le> r" and "keeps s"
  shows "forLoop exactly body PosInf (Num r) s = None"
proof (cases "forLoop exactly body PosInf (Num r) s")
  case None
  then show ?thesis .
next
  case (Some y)
  have "rnd = exactly \<longrightarrow> body' = body \<longrightarrow> bound = PosInf
      \<longrightarrow> (\<exists>q. i = Num q \<and> 0 \<le> q) \<longrightarrow> keeps s \<longrightarrow> False"
    if "forLoop rnd body' bound i s = Some y" for rnd body' bound i s y
  proof (rule forLoop.raw_induct
      [where P = "\<lambda>rnd body' bound i s y. rnd = exactly \<longrightarrow> body' = body \<longrightarrow> bound = PosInf
         \<longrightarrow> (\<exists>q. i = Num q \<and> 0 \<le> q) \<longrightarrow> keeps s \<longrightarrow> False"])
    show "forLoop rnd body' bound i s = Some y" by (rule that)
  next
    fix loop :: "rounding \<Rightarrow> (number \<Rightarrow> 'a \<Rightarrow> 'a step) \<Rightarrow> number \<Rightarrow> number \<Rightarrow> 'a \<Rightarrow> 'a option"
      and rnd body' bound i s y
    assume IH: "\<And>rnd body' bound i s y. loop rnd body' bound i s = Some y \<Longrightarrow>
        rnd = exactly \<longrightarrow> body' = body \<longrightarrow> bound = PosInf
          \<longrightarrow> (\<exists>q. i = Num q \<and> 0 \<le> q) \<longrightarrow> keeps s \<longrightarrow> False"
      and step: "(if numLt i bound
          then case body' i s of
                 Continue s' \<Rightarrow> loop rnd body' bound (numAdd rnd i (Num 1)) s'
               | Exit s' \<Rightarrow> Some s'
          else Some s) = Some y"
    show "rnd = exactly \<longrightarrow> body' = body \<longrightarrow> bound = PosInf
          \<longrightarrow> (\<exists>q. i = Num q \<and> 0 \<le> q) \<longrightarrow> keeps s \<longrightarrow> False"
    proof (intro impI)
      assume rnd: "rnd = exactly" and b: "body' = body" and bound: "bound = PosInf"
        and i: "\<exists>q. i = Num q \<and> 0 \<le> q" and s: "keeps s"
      from i obtain q where q: "i = Num q" and q0: "0 \<le> q" by blast
      from body [OF q0 s] obtain s' where s': "body (Num q) s = Continue s'" and keeps': "keeps s'"
        by blast
      from step have "loop rnd body' bound (numAdd rnd i (Num 1)) s' = Some y"
        by (simp add: q bound b s')
      moreover have "numAdd rnd i (Num 1) = Num (q + 1)"
        by (simp add: q rnd exactly_def)
      ultimately have "loop rnd body' bound (Num (q + 1)) s' = Some y" by simp
      from IH [OF this] rnd b bound q0 keeps' show False by simp
    qed
  qed
  from this [OF Some] assms(2,3) show ?thesis by blast
qed

section \<open>The validation loop\<close>

lemma validateOne_issues:
  assumes "validateOne rnd v raw = Some v'"
  shows "issues v' = issues v \<or> (\<exists>i. issues v' = issues v @ [i])"
  using assms
  by (auto simp add: validateOne_def pushIssue_def Let_def
      split: option.splits list.splits if_splits prod.splits)

lemma validateLoop_issues:
  assumes "validateLoop rnd v raws = Some v'"
  shows "\<exists>later. issues v' = issues v @ later"
  using assms
proof (induction raws arbitrary: v)
  case Nil
  then show ?case by simp
next
  case (Cons raw raws)
  from Cons.prems obtain v1 where one: "validateOne rnd v raw = Some v1"
    and rest: "validateLoop rnd v1 raws = Some v'"
    by (auto split: option.splits)
  from Cons.IH [OF rest] obtain later where "issues v' = issues v1 @ later" by blast
  with validateOne_issues [OF one] show ?case by auto
qed



lemma validateOne_accept:
  assumes "validateOne rnd v raw = Some v'" and "issues v' = issues v"
  shows "\<exists>ttl a pool t occ. proposalTitle raw = Some ttl \<and> proposalStart raw = Some t
      \<and> activitiesByTitle v ttl = Some (a # pool)
      \<and> \<not> numLt t (Num 0) \<and> \<not> numGt t (Num 47)
      \<and> \<not> numGt (numAdd rnd t (duration a)) (Num 48)
      \<and> v' = v\<lparr>activitiesByTitle := (activitiesByTitle v)(ttl \<mapsto> pool),
               occupiedSlots := occ,
               validatedAssignments := validatedAssignments v @ [(a, t)]\<rparr>"
  using assms
  by (auto simp add: validateOne_def pushIssue_def Let_def proposalTitle_def proposalStart_def
      split: option.splits list.splits if_splits prod.splits)

lemma validateOne_reject:
  assumes "validateOne rnd v raw = Some v'" and "issues v' \<noteq> issues v"
  shows "validatedAssignments v' = validatedAssignments v"
  using assms
  by (auto simp add: validateOne_def pushIssue_def Let_def
      split: option.splits list.splits if_splits prod.splits)



text \<open>
  C2 on the code: one activity titled Study is unassigned. A proposal for Study whose
  start time is out of range (99), not an integer (5/2) or past the end of the day (47,
  with the duration 2) pops the activity and leaves the queue empty, so a second
  proposal for Study, valid by itself, is reported as having no occurrence left. Only
  the branch of a conflict (Lunch holds slot 10) puts the activity back.
\<close>

theorem rejected_proposal_keeps_activity_popped:
  "map_option (\<lambda>v. activitiesByTitle v ''Study'')
      (validateAll exactly newPlanner [study1] [proposal ''Study'' 99]) = Some (Some [])
   \<and> map_option (\<lambda>v. activitiesByTitle v ''Study'')
      (validateAll exactly newPlanner [study1] [proposal ''Study'' (5 / 2)]) = Some (Some [])
   \<and> map_option (\<lambda>v. activitiesByTitle v ''Study'')
      (validateAll exactly newPlanner [study1] [proposal ''Study'' 47]) = Some (Some [])
   \<and> map_option issues
      (validateAll exactly newPlanner [study1] [proposal ''Study'' 99, proposal ''Study'' 10])
       = Some [OutOfRangeStart ''Study'' (Num 99), NoOccurrences ''Study'']
   \<and> map_option issues
      (validateAll exactly newPlanner [study1] [proposal ''Study'' (5 / 2), proposal ''Study'' 10])
       = Some [NonIntegerStart ''Study'', NoOccurrences ''Study'']
   \<and> map_option issues
      (validateAll exactly newPlanner [study1] [proposal ''Study'' 47, proposal ''Study'' 10])
       = Some [PastEndOfDay ''Study'', NoOccurrences ''Study'']
   \<and> map_option (\<lambda>v. activitiesByTitle v ''Study'')
      (validateAll exactly (assignActivity lunch (Num 10) newPlanner) [study1]
         [proposal ''Study'' 10]) = Some (Some [study1])"
  by code_simp

section \<open>Extraction of the payload\<close>

lemma jsonMatch_Some:
  assumes "jsonMatch s = Some m"
  shows "\<exists>pre mid post. s = pre @ m @ post \<and> m = CHR ''{'' # mid @ [CHR ''}'']
            \<and> CHR ''{'' \<notin> set pre \<and> CHR ''}'' \<notin> set post"
proof -
  let ?pre = "takeWhile (\<lambda>c. c \<noteq> CHR ''{'') s"
  let ?r = "dropWhile (\<lambda>c. c \<noteq> CHR ''{'') s"
  let ?post = "rev (takeWhile (\<lambda>c. c \<noteq> CHR ''}'') (rev ?r))"
  from assms have m: "m = rev (dropWhile (\<lambda>c. c \<noteq> CHR ''}'') (rev ?r))" and ne: "m \<noteq> []"
    by (auto simp add: jsonMatch_def Let_def split: if_splits)
  have "rev ?r = takeWhile (\<lambda>c. c \<noteq> CHR ''}'') (rev ?r) @ dropWhile (\<lambda>c. c \<noteq> CHR ''}'') (rev ?r)"
    by simp
  then have "rev (rev ?r) = rev (takeWhile (\<lambda>c. c \<noteq> CHR ''}'') (rev ?r) @ dropWhile (\<lambda>c. c \<noteq> CHR ''}'') (rev ?r))"
    by (rule arg_cong)
  then have r: "?r = m @ ?post"
    using m by (simp only: rev_append rev_rev_ident)
  have s: "s = ?pre @ m @ ?post"
    using r takeWhile_dropWhile_id [of "\<lambda>c. c \<noteq> CHR ''{''" s] by simp
  have pre: "CHR ''{'' \<notin> set ?pre"
    by (auto dest: set_takeWhileD)
  have post: "CHR ''}'' \<notin> set ?post"
    by (auto dest: set_takeWhileD)
  from ne r have rne: "?r \<noteq> []" by (metis append_is_Nil_conv)
  then have "hd ?r = CHR ''{''"
    using hd_dropWhile [of "\<lambda>c. c \<noteq> CHR ''{''" s] by simp
  with r ne have hd: "hd m = CHR ''{''" by (metis hd_append2)
  from ne m have dne: "dropWhile (\<lambda>c. c \<noteq> CHR ''}'') (rev ?r) \<noteq> []" by simp
  then have "hd (dropWhile (\<lambda>c. c \<noteq> CHR ''}'') (rev ?r)) = CHR ''}''"
    using hd_dropWhile [of "\<lambda>c. c \<noteq> CHR ''}''" "rev ?r"] by simp
  with m dne have last: "last m = CHR ''}''" by (simp add: last_rev)
  from ne hd obtain tl where tl: "m = CHR ''{'' # tl" by (cases m) auto
  with last have "tl \<noteq> []" by (cases tl) auto
  with tl last have "m = CHR ''{'' # butlast tl @ [CHR ''}'']"
    by (metis append_butlast_last_id last_ConsR)
  with s pre post show ?thesis by blast
qed

lemma jsonMatch_None:
  "jsonMatch s = None \<longleftrightarrow> \<not> (\<exists>pre mid post. s = pre @ CHR ''{'' # mid @ CHR ''}'' # post)"
proof
  assume n: "jsonMatch s = None"
  show "\<not> (\<exists>pre mid post. s = pre @ CHR ''{'' # mid @ CHR ''}'' # post)"
  proof
    assume "\<exists>pre mid post. s = pre @ CHR ''{'' # mid @ CHR ''}'' # post"
    then obtain pre mid post where s: "s = pre @ CHR ''{'' # mid @ CHR ''}'' # post" by blast
    let ?r = "dropWhile (\<lambda>c. c \<noteq> CHR ''{'') s"
    have "\<exists>ys. ?r = ys @ CHR ''}'' # post"
      unfolding s
    proof (induction pre)
      case Nil
      show ?case by simp
    next
      case (Cons c pre)
      then show ?case by (cases "c = CHR ''{''") auto
    qed
    then obtain ys where "?r = ys @ CHR ''}'' # post" by blast
    then have "CHR ''}'' \<in> set (rev ?r)" by simp
    then have "dropWhile (\<lambda>c. c \<noteq> CHR ''}'') (rev ?r) \<noteq> []"
      by (simp add: dropWhile_eq_Nil_conv)
    with n show False by (auto simp add: jsonMatch_def Let_def split: if_splits)
  qed
next
  assume a: "\<not> (\<exists>pre mid post. s = pre @ CHR ''{'' # mid @ CHR ''}'' # post)"
  show "jsonMatch s = None"
  proof (cases "jsonMatch s")
    case None
    then show ?thesis .
  next
    case (Some m)
    from jsonMatch_Some [OF Some] obtain pre mid post
      where "s = pre @ (CHR ''{'' # mid @ [CHR ''}'']) @ post" by blast
    then have "s = pre @ CHR ''{'' # mid @ CHR ''}'' # post" by simp
    with a show ?thesis by blast
  qed
qed

text \<open>
  C6, as the code has it. The text handed to \<^verbatim>\<open>JSON.parse\<close> is the one span from the first
  opening brace of the reply to its last closing brace, taken whole. The call fails,
  and leaves the store as it was, when the reply has no such span ('No JSON found in
  response'), when \<^verbatim>\<open>JSON.parse\<close> rejects the span (SyntaxError), and when the parsed
  value has no array \<^verbatim>\<open>assignments\<close> ('Invalid response format'). Otherwise the elements
  of that array are the proposals that are validated.
\<close>

theorem payload_is_greedy_span:
  "(jsonMatch text = None \<longleftrightarrow>
      \<not> (\<exists>pre mid post. text = pre @ CHR ''{'' # mid @ CHR ''}'' # post))
   \<and> (\<forall>m. jsonMatch text = Some m \<longrightarrow>
        (\<exists>pre mid post. text = pre @ m @ post \<and> m = CHR ''{'' # mid @ [CHR ''}'']
            \<and> CHR ''{'' \<notin> set pre \<and> CHR ''}'' \<notin> set post))
   \<and> (jsonMatch text = None \<longrightarrow>
        parseAndApplyAssignments rnd jsonParse text un st = Some (Inl NoJsonFound, st))
   \<and> (\<forall>m. jsonMatch text = Some m \<and> jsonParse m = None \<longrightarrow>
        parseAndApplyAssignments rnd jsonParse text un st = Some (Inl JsonSyntaxError, st))
   \<and> (\<forall>m response. jsonMatch text = Some m \<and> jsonParse m = Some response
          \<and> \<not> isArray (member response ''assignments'') \<longrightarrow>
        parseAndApplyAssignments rnd jsonParse text un st
          = Some (Inl InvalidResponseFormat, st))
   \<and> (\<forall>m response raws. jsonMatch text = Some m \<and> jsonParse m = Some response
          \<and> member response ''assignments'' = Some (JArr raws) \<longrightarrow>
        parseAndApplyAssignments rnd jsonParse text un st =
          (case validateAll rnd st un raws of
             None \<Rightarrow> None
           | Some v \<Rightarrow>
               Some (if issues v \<noteq> []
                     then (Inl (DisallowedAssignments (issues v)), st)
                     else (Inr (), applyAssignments st (validatedAssignments v)))))"
proof -
  have none: "jsonMatch text = None \<longleftrightarrow>
      \<not> (\<exists>pre mid post. text = pre @ CHR ''{'' # mid @ CHR ''}'' # post)"
    by (rule jsonMatch_None)
  have some: "\<forall>m. jsonMatch text = Some m \<longrightarrow>
        (\<exists>pre mid post. text = pre @ m @ post \<and> m = CHR ''{'' # mid @ [CHR ''}'']
            \<and> CHR ''{'' \<notin> set pre \<and> CHR ''}'' \<notin> set post)"
    using jsonMatch_Some by blast
  have e1: "jsonMatch text = None \<longrightarrow>
        parseAndApplyAssignments rnd jsonParse text un st = Some (Inl NoJsonFound, st)"
    by (simp add: parseAndApplyAssignments_def)
  have e2: "\<forall>m. jsonMatch text = Some m \<and> jsonParse m = None \<longrightarrow>
        parseAndApplyAssignments rnd jsonParse text un st = Some (Inl JsonSyntaxError, st)"
    by (simp add: parseAndApplyAssignments_def)
  have e3: "\<forall>m response. jsonMatch text = Some m \<and> jsonParse m = Some response
          \<and> \<not> isArray (member response ''assignments'') \<longrightarrow>
        parseAndApplyAssignments rnd jsonParse text un st
          = Some (Inl InvalidResponseFormat, st)"
    by (simp add: parseAndApplyAssignments_def)
  have e4: "\<forall>m response raws. jsonMatch text = Some m \<and> jsonParse m = Some response
          \<and> member response ''assignments'' = Some (JArr raws) \<longrightarrow>
        parseAndApplyAssignments rnd jsonParse text un st =
          (case validateAll rnd st un raws of
             None \<Rightarrow> None
           | Some v \<Rightarrow>
               Some (if issues v \<noteq> []
                     then (Inl (DisallowedAssignments (issues v)), st)
                     else (Inr (), applyAssignments st (validatedAssignments v))))"
    by (simp add: parseAndApplyAssignments_def truthy_def isArray_def elements_def
        split: option.split)
  from none some e1 e2 e3 e4 show ?thesis by (intro conjI)
qed

theorem payload_is_greedy_span_witness:
  "jsonMatch ''I cannot plan this day.'' = None
   \<and> parseAndApplyAssignments exactly (parseAs ''{\"assignments\":[]}'' (payload []))
        ''I cannot plan this day.'' [study1] studyPlanner = Some (Inl NoJsonFound, studyPlanner)
   \<and> jsonMatch ''Plan: {\"assignments\":[]} (done)'' = Some ''{\"assignments\":[]}''
   \<and> parseAndApplyAssignments exactly (parseAs ''{\"assignments\":[]}'' (payload []))
        ''Plan: {\"assignments\":[]} (done)'' [study1] studyPlanner = Some (Inr (), studyPlanner)
   \<and> jsonMatch ''{nope}'' = Some ''{nope}''
   \<and> parseAndApplyAssignments exactly (parseAs ''{\"assignments\":[]}'' (payload []))
        ''{nope}'' [study1] studyPlanner = Some (Inl JsonSyntaxError, studyPlanner)"
proof -
  let ?parse = "parseAs ''{\"assignments\":[]}'' (payload [])"
  have m1: "jsonMatch ''I cannot plan this day.'' = None" by code_simp
  have m2: "jsonMatch ''Plan: {\"assignments\":[]} (done)'' = Some ''{\"assignments\":[]}''"
    by code_simp
  have m3: "jsonMatch ''{nope}'' = Some ''{nope}''" by code_simp
  have p2: "?parse ''{\"assignments\":[]}'' = Some (payload [])" by (simp add: parseAs_def)
  have p3: "?parse ''{nope}'' = None" by (simp add: parseAs_def)
  have a2: "member (payload []) ''assignments'' = Some (JArr [])"
    by (simp add: member_def payload_def)
  have v2: "validateAll exactly studyPlanner [study1] []
      = Some \<lparr>activitiesByTitle = groupByTitle [study1], issues = [],
               validatedAssignments = [], occupiedSlots = Map.empty\<rparr>"
    by (simp add: validateAll_def initialValidation_def seedOccupied_def studyPlanner_def)
  from payload_is_greedy_span
    [of "''I cannot plan this day.''" exactly ?parse "[study1]" studyPlanner] m1
  have r1: "parseAndApplyAssignments exactly ?parse ''I cannot plan this day.'' [study1]
      studyPlanner = Some (Inl NoJsonFound, studyPlanner)"
    by blast
  from payload_is_greedy_span
    [of "''Plan: {\"assignments\":[]} (done)''" exactly ?parse "[study1]" studyPlanner] m2 p2 a2
  have "parseAndApplyAssignments exactly ?parse ''Plan: {\"assignments\":[]} (done)''
      [study1] studyPlanner
      = (case validateAll exactly studyPlanner [study1] [] of
           None \<Rightarrow> None
         | Some v \<Rightarrow>
             Some (if issues v \<noteq> []
                   then (Inl (DisallowedAssignments (issues v)), studyPlanner)
                   else (Inr (), applyAssignments studyPlanner (validatedAssignments v))))"
    by blast
  then have r2: "parseAndApplyAssignments exactly ?parse ''Plan: {\"assignments\":[]} (done)''
      [study1] studyPlanner = Some (Inr (), studyPlanner)"
    by (simp add: v2 applyAssignments_def)
  from payload_is_greedy_span [of "''{nope}''" exactly ?parse "[study1]" studyPlanner] m3 p3
  have r3: "parseAndApplyAssignments exactly ?parse ''{nope}'' [study1] studyPlanner
      = Some (Inl JsonSyntaxError, studyPlanner)"
    by blast
  from m1 r1 m2 r2 m3 r3 show ?thesis by (intro conjI)
qed

text \<open>
  C6 as stated fails. The reply below starts with a well-formed payload, which
  \<^verbatim>\<open>JSON.parse\<close> accepts by itself; a second pair of braces follows it. The match runs to
  the last closing brace, \<^verbatim>\<open>JSON.parse\<close> rejects that text, and the call fails: the first
  well-formed block is not what is extracted.
\<close>

theorem first_block_not_extracted:
  "parseAs ''{\"assignments\":[]}'' (payload []) ''{\"assignments\":[]}'' = Some (payload [])
   \<and> member (payload []) ''assignments'' = Some (JArr [])
   \<and> jsonMatch ''{\"assignments\":[]} {}'' = Some ''{\"assignments\":[]} {}''
   \<and> parseAndApplyAssignments exactly (parseAs ''{\"assignments\":[]}'' (payload []))
        ''{\"assignments\":[]} {}'' [study1] studyPlanner
       = Some (Inl JsonSyntaxError, studyPlanner)"
proof -
  have m: "jsonMatch ''{\"assignments\":[]} {}'' = Some ''{\"assignments\":[]} {}''"
    by code_simp
  then show ?thesis
    by (simp add: parseAndApplyAssignments_def parseAs_def member_def payload_def)
qed

section \<open>The schedule\<close>

lemma wholeOf_Some:
  assumes "wholeOf t = Some k"
  shows "t = Num (of_int k)"
  using assms by (cases t) (auto split: if_splits)

lemma slot_of_offset:
  assumes rnd: "rounds rnd" and k: "0 \<le> k"
  shows "if k + int i < 48
         then numAdd rnd (Num (of_int k)) (Num (of_nat i)) = Num (of_int (k + int i))
         else \<not> numLt (numAdd rnd (Num (of_int k)) (Num (of_nat i))) (Num 48)"
proof -
  have sum: "numAdd rnd (Num (of_int k)) (Num (of_nat i)) = rnd (of_int (k + int i))"
    by simp
  show ?thesis
  proof (cases "k + int i < 48")
    case True
    with k have "\<bar>k + int i\<bar> \<le> 2 ^ 53" by simp
    from rounds_exact [OF rnd this] True sum show ?thesis by simp
  next
    case False
    then have "(48::rat) \<le> of_int (k + int i)"
      by (metis linorder_not_less of_int_le_iff of_int_numeral)
    from rounds_mono [OF rnd this] have "\<not> numLt (rnd (of_int (k + int i))) (rnd 48)" .
    moreover have "rnd 48 = Num 48"
      using rounds_exact [OF rnd, of 48] by simp
    ultimately show ?thesis using False sum by simp
  qed
qed

lemma slot_below:
  assumes "rounds rnd" and "0 \<le> k" and "k + int i < 48"
  shows "numAdd rnd (Num (of_int k)) (Num (of_nat i)) = Num (of_int (k + int i))"
  using slot_of_offset [OF assms(1,2), of i] assms(3) by simp

lemma slot_beyond:
  assumes "rounds rnd" and "0 \<le> k" and "\<not> k + int i < 48"
  shows "\<not> numLt (numAdd rnd (Num (of_int k)) (Num (of_nat i))) (Num 48)"
  using slot_of_offset [OF assms(1,2), of i] assms(3) by simp

lemma placeSlot_whole:
  assumes rnd: "rounds rnd"
    and start: "wholeOf (startTime x) = Some k" and k: "0 \<le> k"
  shows "placeSlot rnd x (Num (of_nat i)) (Inr schedule) =
     (if k + int i < 48
      then (case schedule (k + int i) of
              None \<Rightarrow> Exit (Inl TypeError)
            | Some l \<Rightarrow> Continue (Inr (schedule(k + int i \<mapsto> l @ [activity x]))))
      else Continue (Inr schedule))"
proof -
  define z where "z = k + int i"
  define sl where "sl = numAdd rnd (startTime x) (Num (of_nat i))"
  from wholeOf_Some [OF start] have "startTime x = Num (of_int k)" .
  then have sl: "sl = numAdd rnd (Num (of_int k)) (Num (of_nat i))"
    by (simp only: sl_def)
  have ps: "placeSlot rnd x (Num (of_nat i)) (Inr schedule) =
     (if numLt sl (Num 48) then
        (case scheduleAt schedule sl of
           None \<Rightarrow> Exit (Inl TypeError)
         | Some (k, l) \<Rightarrow> Continue (Inr (schedule(k \<mapsto> l @ [activity x]))))
      else Continue (Inr schedule))"
    unfolding placeSlot_def sl_def by (simp only: Let_def sum.case)
  show ?thesis
  proof (cases "z < 48")
    case True
    then have tz: "k + int i < 48" unfolding z_def .
    from slot_below [OF rnd k tz] have "sl = Num (of_int z)"
      by (simp only: sl z_def)
    moreover from True have "(of_int z :: rat) < 48"
      by (metis of_int_less_iff of_int_numeral)
    ultimately have "numLt sl (Num 48)" and "wholeOf sl = Some z" by simp_all
    then have "placeSlot rnd x (Num (of_nat i)) (Inr schedule) =
        (case schedule z of
           None \<Rightarrow> Exit (Inl TypeError)
         | Some l \<Rightarrow> Continue (Inr (schedule(z \<mapsto> l @ [activity x]))))"
      by (simp add: ps scheduleAt_def split: option.split)
    with True show ?thesis by (simp only: z_def if_True)
  next
    case False
    then have nz: "\<not> k + int i < 48" unfolding z_def .
    from slot_beyond [OF rnd k nz] have "\<not> numLt sl (Num 48)"
      unfolding sl .
    then have "placeSlot rnd x (Num (of_nat i)) (Inr schedule) = Continue (Inr schedule)"
      by (simp only: ps if_False)
    with False show ?thesis by (simp only: z_def if_False)
  qed
qed

lemma run_placeSlot:
  assumes rnd: "rounds rnd"
    and start: "wholeOf (startTime x) = Some k" and k: "0 \<le> k"
    and "\<forall>s. schedule s = (if 0 \<le> s \<and> s < 48 then Some (base s) else None)"
    and "distinct offs"
  shows "\<exists>schedule'. run (\<lambda>i. placeSlot rnd x (Num (of_nat i))) offs (Inr schedule) = Inr schedule'
     \<and> (\<forall>s. schedule' s = (if 0 \<le> s \<and> s < 48
           then Some (base s @ (if \<exists>i\<in>set offs. k + int i = s then [activity x] else []))
           else None))"
  using assms(4,5)
proof (induction offs arbitrary: schedule base)
  case Nil
  then show ?case by simp
next
  case (Cons i offs)
  from Cons.prems have dist: "distinct offs" and notin: "i \<notin> set offs" by simp_all
  show ?case
  proof (cases "k + int i < 48")
    case False
    with placeSlot_whole [OF rnd start k, of i schedule]
    have one: "placeSlot rnd x (Num (of_nat i)) (Inr schedule) = Continue (Inr schedule)"
      by (simp only: if_False)
    from Cons.IH [OF Cons.prems(1) dist] obtain schedule' where
      run: "run (\<lambda>i. placeSlot rnd x (Num (of_nat i))) offs (Inr schedule) = Inr schedule'"
      and res: "\<forall>s. schedule' s = (if 0 \<le> s \<and> s < 48
           then Some (base s @ (if \<exists>i\<in>set offs. k + int i = s then [activity x] else []))
           else None)"
      by blast
    from one run have "run (\<lambda>i. placeSlot rnd x (Num (of_nat i))) (i # offs) (Inr schedule)
        = Inr schedule'"
      by simp
    moreover from res False have "\<forall>s. schedule' s = (if 0 \<le> s \<and> s < 48
           then Some (base s @ (if \<exists>j\<in>set (i # offs). k + int j = s then [activity x] else []))
           else None)"
      by auto
    ultimately show ?thesis by blast
  next
    case True
    from True k have range: "0 \<le> k + int i" "k + int i < 48" by simp_all
    with Cons.prems(1) have here: "schedule (k + int i) = Some (base (k + int i))" by simp
    with True placeSlot_whole [OF rnd start k, of i schedule]
    have one: "placeSlot rnd x (Num (of_nat i)) (Inr schedule)
        = Continue (Inr (schedule(k + int i \<mapsto> base (k + int i) @ [activity x])))"
      by (simp only: if_True option.case)
    let ?base = "base(k + int i := base (k + int i) @ [activity x])"
    have upd: "\<forall>s. (schedule(k + int i \<mapsto> base (k + int i) @ [activity x])) s
        = (if 0 \<le> s \<and> s < 48 then Some (?base s) else None)"
      using range Cons.prems(1) by simp
    from Cons.IH [OF upd dist] obtain schedule' where
      run: "run (\<lambda>i. placeSlot rnd x (Num (of_nat i))) offs
              (Inr (schedule(k + int i \<mapsto> base (k + int i) @ [activity x]))) = Inr schedule'"
      and res: "\<forall>s. schedule' s = (if 0 \<le> s \<and> s < 48
           then Some (?base s @ (if \<exists>j\<in>set offs. k + int j = s then [activity x] else []))
           else None)"
      by blast
    from one run have "run (\<lambda>i. placeSlot rnd x (Num (of_nat i))) (i # offs) (Inr schedule)
        = Inr schedule'"
      by simp
    moreover from notin have "\<not> (\<exists>j\<in>set offs. k + int j = k + int i)" by auto
    with res have "\<forall>s. schedule' s = (if 0 \<le> s \<and> s < 48
           then Some (base s @ (if \<exists>j\<in>set (i # offs). k + int j = s then [activity x] else []))
           else None)"
      by auto
    ultimately show ?thesis by blast
  qed
qed

lemma covers_offsets:
  assumes "wholeOf (startTime x) = Some k" and "loopEnds (duration (activity x))"
  shows "(\<exists>i\<in>set [0..<iterations (duration (activity x))]. k + int i = s) \<longleftrightarrow> covers x s"
proof (cases "duration (activity x)")
  case (Num r)
  have "(\<exists>i<nat \<lceil>r\<rceil>. k + int i = s) \<longleftrightarrow> k \<le> s \<and> of_int (s - k) < r"
  proof
    assume "\<exists>i<nat \<lceil>r\<rceil>. k + int i = s"
    then obtain i where "i < nat \<lceil>r\<rceil>" and "k + int i = s" by blast
    then have "k \<le> s" and "s - k < \<lceil>r\<rceil>" by auto
    then show "k \<le> s \<and> of_int (s - k) < r" by (simp add: less_ceiling_iff)
  next
    assume a: "k \<le> s \<and> of_int (s - k) < r"
    then have "s - k < \<lceil>r\<rceil>" by (simp add: less_ceiling_iff)
    with a have "nat (s - k) < nat \<lceil>r\<rceil>" and "k + int (nat (s - k)) = s" by auto
    then show "\<exists>i<nat \<lceil>r\<rceil>. k + int i = s" by blast
  qed
  moreover have "(\<exists>i\<in>set [0..<nat \<lceil>r\<rceil>]. k + int i = s) \<longleftrightarrow> (\<exists>i<nat \<lceil>r\<rceil>. k + int i = s)"
    by auto
  moreover from Num assms(1) have "covers x s \<longleftrightarrow> k \<le> s \<and> of_int (s - k) < r"
    by (simp add: covers_def)
  moreover from Num have "iterations (duration (activity x)) = nat \<lceil>r\<rceil>"
    by (simp add: iterations_def)
  ultimately show ?thesis by (simp only:)
next
  case NaN
  with assms(1) show ?thesis by (simp add: covers_def iterations_def)
next
  case PosInf
  with assms(2) show ?thesis by (simp add: loopEnds_def numGt_def)
next
  case NegInf
  with assms(1) show ?thesis by (simp add: covers_def iterations_def)
qed

lemma placeAssignments_total:
  assumes rnd: "rounds rnd"
    and "\<forall>x\<in>set xs. wholeStart (startTime x) \<and> loopEnds (duration (activity x))"
    and "\<forall>s. schedule s = (if 0 \<le> s \<and> s < 48 then Some (base s) else None)"
  shows "\<exists>schedule'. placeAssignments rnd schedule xs = Some (Inr schedule')
     \<and> (\<forall>s. schedule' s = (if 0 \<le> s \<and> s < 48
           then Some (base s @ map activity (filter (\<lambda>x. covers x s) xs))
           else None))"
  using assms(2,3)
proof (induction xs arbitrary: schedule base)
  case Nil
  then show ?case by simp
next
  case (Cons x xs)
  from Cons.prems(1) have "wholeStart (startTime x)" and ends: "loopEnds (duration (activity x))"
    by simp_all
  then obtain k where start: "wholeOf (startTime x) = Some k" and k: "0 \<le> k"
    by (auto simp add: wholeStart_def split: option.splits)
  let ?offs = "[0..<iterations (duration (activity x))]"
  from run_placeSlot [OF rnd start k Cons.prems(2), of ?offs]
  obtain schedule1 where
    one: "run (\<lambda>i. placeSlot rnd x (Num (of_nat i))) ?offs (Inr schedule) = Inr schedule1"
    and res1: "\<forall>s. schedule1 s = (if 0 \<le> s \<and> s < 48
          then Some (base s @ (if \<exists>i\<in>set ?offs. k + int i = s then [activity x] else []))
          else None)"
    by auto
  from res1 covers_offsets [OF start ends]
  have res1': "\<forall>s. schedule1 s = (if 0 \<le> s \<and> s < 48
          then Some (base s @ (if covers x s then [activity x] else [])) else None)"
    by simp
  from forLoop_ends [OF rnd ends, of "placeSlot rnd x" "Inr schedule"] one
  have loop: "forLoop rnd (placeSlot rnd x) (duration (activity x)) (Num 0) (Inr schedule)
      = Some (Inr schedule1)"
    by simp
  from Cons.prems(1)
  have "\<forall>y\<in>set xs. wholeStart (startTime y) \<and> loopEnds (duration (activity y))" by simp
  from Cons.IH [OF this res1'] obtain schedule' where
    run: "placeAssignments rnd schedule1 xs = Some (Inr schedule')"
    and res: "\<forall>s. schedule' s = (if 0 \<le> s \<and> s < 48
           then Some ((base s @ (if covers x s then [activity x] else []))
                  @ map activity (filter (\<lambda>x. covers x s) xs))
           else None)"
    by blast
  from loop run have "placeAssignments rnd schedule (x # xs) = Some (Inr schedule')" by simp
  moreover from res have "\<forall>s. schedule' s = (if 0 \<le> s \<and> s < 48
           then Some (base s @ map activity (filter (\<lambda>x. covers x s) (x # xs)))
           else None)"
    by simp
  ultimately show ?case by blast
qed

text \<open>
  C10, as the code has it. When every assignment starts at a whole number that is not
  negative, and no duration is so large that the loop of line 282 does not end,
  \<open>getSchedule\<close> returns a mapping whose keys are the slots 0 to 47, each with the
  activities whose assignment covers it, in the order of the assignments; what an
  assignment would cover from slot 48 on is left out.
\<close>

theorem getSchedule_slots:
  assumes "rounds rnd"
    and "\<forall>x\<in>set (assignments st). wholeStart (startTime x) \<and> loopEnds (duration (activity x))"
  shows "\<exists>schedule. getSchedule rnd st = Some (Inr schedule)
     \<and> dom schedule = {0..47}
     \<and> (\<forall>s\<in>{0..47}. schedule s = Some (covering st s))"
proof -
  have "\<forall>s. emptySchedule s = (if 0 \<le> s \<and> s < 48 then Some ((\<lambda>_. []) s) else None)"
    by (simp add: emptySchedule_def)
  from placeAssignments_total [OF assms this] obtain schedule where
    run: "getSchedule rnd st = Some (Inr schedule)"
    and res: "\<forall>s. schedule s = (if 0 \<le> s \<and> s < 48 then Some (covering st s) else None)"
    by (auto simp add: getSchedule_def covering_def)
  from res have "dom schedule = {0..47}"
    by (auto simp add: dom_def)
  with run res show ?thesis by auto
qed

theorem getSchedule_slots_witness:
  "rounds exactly
   \<and> list_all (\<lambda>x. wholeStart (startTime x) \<and> loopEnds (duration (activity x)))
        (assignments (assignActivity nap (Num 46) newPlanner))
   \<and> (\<exists>schedule. getSchedule exactly (assignActivity nap (Num 46) newPlanner) = Some (Inr schedule)
        \<and> schedule 45 = Some [] \<and> schedule 46 = Some [nap] \<and> schedule 47 = Some [nap]
        \<and> schedule 48 = None \<and> schedule 49 = None)"
proof -
  let ?st = "assignActivity nap (Num 46) newPlanner"
  have h: "\<forall>x\<in>set (assignments ?st). wholeStart (startTime x) \<and> loopEnds (duration (activity x))"
    by (simp add: assignments_assignActivity newPlanner_def wholeStart_def loopEnds_def
        numGt_def nap_def)
  from getSchedule_slots [OF rounds_exactly h] obtain schedule
    where run: "getSchedule exactly ?st = Some (Inr schedule)"
    and keys: "dom schedule = {0..47}"
    and slots: "\<forall>s\<in>{0..47}. schedule s = Some (covering ?st s)"
    by blast
  have c: "covering ?st 45 = []" "covering ?st 46 = [nap]" "covering ?st 47 = [nap]"
    by code_simp+
  from slots c have "schedule 45 = Some []" "schedule 46 = Some [nap]" "schedule 47 = Some [nap]"
    by simp_all
  moreover from keys have "48 \<notin> dom schedule" "49 \<notin> dom schedule"
    by simp_all
  then have "schedule 48 = None" "schedule 49 = None"
    by (simp_all add: domIff)
  moreover from h
  have "list_all (\<lambda>x. wholeStart (startTime x) \<and> loopEnds (duration (activity x)))
      (assignments ?st)"
    by (simp only: list_all_iff)
  ultimately show ?thesis using run rounds_exactly by blast
qed

text \<open>
  C10 as stated fails: an assignment that starts at slot \<open>-1\<close>, or at the slot one half,
  both of which \<open>assignActivity\<close> stores, makes \<open>getSchedule\<close> throw a TypeError instead
  of returning a mapping; and with an assigned activity of infinite duration the call
  does not return.
\<close>

theorem getSchedule_no_mapping:
  "getSchedule exactly (assignActivity lunch (Num (- 1)) newPlanner) = Some (Inl TypeError)
   \<and> getSchedule exactly (assignActivity lunch (Num (1 / 2)) newPlanner) = Some (Inl TypeError)
   \<and> getSchedule exactly (assignActivity endless (Num 48) newPlanner) = None"
proof -
  have half: "\<lfloor>1 / 2 :: rat\<rfloor> = 0"
    by (simp add: floor_eq_iff)
  have "getSchedule exactly (assignActivity lunch (Num (- 1)) newPlanner) = Some (Inl TypeError)"
    by (simp add: getSchedule_def assignActivity_def unassignActivity_def newPlanner_def
        lunch_def forLoop.simps placeSlot_def scheduleAt_def exactly_def emptySchedule_def)
  moreover
  have "getSchedule exactly (assignActivity lunch (Num (1 / 2)) newPlanner) = Some (Inl TypeError)"
    by (simp add: getSchedule_def assignActivity_def unassignActivity_def newPlanner_def
        lunch_def forLoop.simps placeSlot_def scheduleAt_def exactly_def emptySchedule_def half)
  moreover
  have "getSchedule exactly (assignActivity endless (Num 48) newPlanner) = None"
  proof -
    let ?x = "\<lparr>activity = endless, startTime = Num 48\<rparr>"
    have "\<exists>s'. placeSlot exactly ?x (Num q) s = Continue s' \<and> (\<exists>schedule. s' = Inr schedule)"
      if "0 \<le> q" and "\<exists>schedule. s = Inr schedule" for q s
      using that by (auto simp add: placeSlot_def exactly_def Let_def)
    from forLoop_forever [of "\<lambda>s. \<exists>schedule. s = Inr schedule" "placeSlot exactly ?x" 0
        "Inr emptySchedule", OF this]
    have "forLoop exactly (placeSlot exactly ?x) PosInf (Num 0) (Inr emptySchedule) = None"
      by simp
    then show ?thesis
      by (simp add: getSchedule_def assignActivity_def unassignActivity_def newPlanner_def
          endless_def)
  qed
  ultimately show ?thesis by (intro conjI)
qed

section \<open>What the batch path stores\<close>

lemma validateOne_checked:
  assumes "validateOne rnd v raw = Some v'"
    and "list_all (checked rnd) (validatedAssignments v)"
  shows "list_all (checked rnd) (validatedAssignments v')"
proof (cases "issues v' = issues v")
  case True
  from validateOne_accept [OF assms(1) True] obtain a t where
    "proposalStart raw = Some t"
    "\<not> numGt (numAdd rnd t (duration a)) (Num 48)"
    "validatedAssignments v' = validatedAssignments v @ [(a, t)]"
    by auto
  moreover from this(1) have "wholeOf t \<noteq> None"
    by (auto simp add: proposalStart_def asInteger_def split: option.splits json.splits if_splits)
  ultimately show ?thesis using assms(2) by (simp add: checked_def)
next
  case False
  from validateOne_reject [OF assms(1) False] assms(2) show ?thesis by simp
qed

lemma validateLoop_checked:
  assumes "validateLoop rnd v raws = Some v'"
    and "list_all (checked rnd) (validatedAssignments v)"
  shows "list_all (checked rnd) (validatedAssignments v')"
  using assms
proof (induction raws arbitrary: v)
  case Nil
  then show ?case by simp
next
  case (Cons raw raws)
  from Cons.prems(1) obtain v1 where one: "validateOne rnd v raw = Some v1"
    and rest: "validateLoop rnd v1 raws = Some v'"
    by (auto split: option.splits)
  from Cons.IH [OF rest validateOne_checked [OF one Cons.prems(2)]] show ?case .
qed

lemma validateAll_checked:
  assumes "validateAll rnd st un raws = Some v"
  shows "list_all (checked rnd) (validatedAssignments v)"
proof -
  from assms obtain v0 where v0: "initialValidation rnd st un = Some v0"
    and loop: "validateLoop rnd v0 raws = Some v"
    by (auto simp add: validateAll_def split: option.splits)
  from v0 have "validatedAssignments v0 = []"
    by (auto simp add: initialValidation_def split: option.splits)
  then have "list_all (checked rnd) (validatedAssignments v0)" by simp
  from validateLoop_checked [OF loop this] show ?thesis .
qed

lemma checked_fits:
  assumes rnd: "rounds rnd" and "checked rnd (a, t)" and "duration a \<noteq> NaN"
  shows "fits rnd a t"
proof -
  from assms(2) obtain k where "wholeOf t = Some k"
    and le: "\<not> numGt (numAdd rnd t (duration a)) (Num 48)"
    by (auto simp add: checked_def)
  then have t: "t = Num (of_int k)" by (simp add: wholeOf_Some)
  have "numAdd rnd t (duration a) \<noteq> NaN"
    using assms(3) rounds_not_NaN [OF rnd] unfolding t by (cases "duration a") simp_all
  with le show ?thesis
    unfolding fits_def numLe_def numGt_def
    by (cases "numAdd rnd t (duration a)") auto
qed

lemma dayInvariant_assignActivity:
  assumes "dayInvariant rnd st" and "duration a = NaN \<or> fits rnd a t"
  shows "dayInvariant rnd (assignActivity a t st)"
  using assms
  by (auto simp add: dayInvariant_def assignments_assignActivity list_all_iff fitsDay_def)

lemma dayInvariant_applyAssignments:
  assumes "dayInvariant rnd st" and "\<forall>(a, t)\<in>set vs. duration a = NaN \<or> fits rnd a t"
  shows "dayInvariant rnd (applyAssignments st vs)"
  using assms
proof (induction vs arbitrary: st)
  case Nil
  then show ?case by (simp add: applyAssignments_def)
next
  case (Cons p vs)
  obtain a t where p: "p = (a, t)" by (cases p)
  with Cons.prems have "dayInvariant rnd (assignActivity a t st)"
    by (simp add: dayInvariant_assignActivity)
  moreover from Cons.prems have "\<forall>(a, t)\<in>set vs. duration a = NaN \<or> fits rnd a t" by simp
  ultimately have "dayInvariant rnd (applyAssignments (assignActivity a t st) vs)"
    by (rule Cons.IH)
  with p show ?case by (simp add: applyAssignments_def)
qed

lemma dayInvariant_parseAndApplyAssignments:
  assumes "rounds rnd" and "dayInvariant rnd st"
    and "parseAndApplyAssignments rnd jsonParse text un st = Some (outcome, st')"
  shows "dayInvariant rnd st'"
proof -
  have "dayInvariant rnd (applyAssignments st (validatedAssignments v))"
    if "validateAll rnd st un raws = Some v" for raws v
  proof -
    from validateAll_checked [OF that] checked_fits [OF assms(1)]
    have "\<forall>(a, t)\<in>set (validatedAssignments v). duration a = NaN \<or> fits rnd a t"
      by (auto simp add: list_all_iff)
    with assms(2) show ?thesis by (rule dayInvariant_applyAssignments)
  qed
  with assms(2,3) show ?thesis
    by (auto simp add: parseAndApplyAssignments_def split: option.splits if_splits)
qed

lemma dayInvariant_assignActivities:
  assumes "rounds rnd" and "dayInvariant rnd st"
    and "assignActivities rnd jsonParse llm st = Some (outcome, st')"
  shows "dayInvariant rnd st'"
  using assms dayInvariant_parseAndApplyAssignments [OF assms(1,2)]
  by (auto simp add: assignActivities_def Let_def split: sum.splits if_splits)

text \<open>
  C4, as the code has it. The batch path stores a pair only when
  \<^verbatim>\<open>startTime + activity.duration > 48\<close> is false, which a duration that is NaN passes;
  the other operations only remove assignments; \<open>assignActivity\<close> stores whatever start
  time it is given. So in every state reached by the public operations in which each
  direct \<open>assignActivity\<close> call names a start time at which its activity fits, every
  assignment of an activity whose duration is not NaN satisfies
  \<^verbatim>\<open>startTime + activity.duration <= 48\<close>.
\<close>

theorem reachable_fits_day:
  assumes "rounds rnd" and "reachable rnd (fits rnd) st"
  shows "\<forall>x\<in>set (assignments st). duration (activity x) \<noteq> NaN \<longrightarrow> fitsDay rnd x"
proof -
  from assms(2) have "dayInvariant rnd st"
  proof (induction rule: reachable.induct)
    case start
    show ?case by (simp add: dayInvariant_def newPlanner_def)
  next
    case (add st t d)
    then show ?case by (simp add: dayInvariant_def addActivity_def Let_def)
  next
    case (create st)
    then show ?case by (simp add: dayInvariant_def callerCreates_def)
  next
    case (remove st a)
    then show ?case by (simp add: dayInvariant_def removeActivity_def list_all_iff)
  next
    case (assign st a t)
    then show ?case by (simp add: dayInvariant_assignActivity)
  next
    case (unassign st a)
    then show ?case by (simp add: dayInvariant_def unassignActivity_def list_all_iff)
  next
    case (batch st jsonParse llm outcome st')
    from dayInvariant_assignActivities [OF assms(1) batch.IH batch.hyps(2)] show ?case .
  qed
  then show ?thesis by (auto simp add: dayInvariant_def list_all_iff)
qed

theorem reachable_fits_day_witness:
  "rounds exactly
   \<and> reachable exactly (fits exactly) (assignActivity lunch (Num 47) plannedDay)
   \<and> assignments (assignActivity lunch (Num 47) plannedDay)
     = [\<lparr>activity = study1, startTime = Num 20\<rparr>, \<lparr>activity = study2, startTime = Num 10\<rparr>,
        \<lparr>activity = lunch, startTime = Num 47\<rparr>]
   \<and> list_all (fitsDay exactly) (assignments (assignActivity lunch (Num 47) plannedDay))"
proof -
  let ?parse = "parseAs studyReply (payload [proposal ''Study'' 20, proposal ''Study'' 10])"
  let ?st = "assignActivity lunch (Num 47) plannedDay"
  have "reachable exactly (fits exactly) studyPlanner'"
    unfolding studyPlanner'_def by (intro reachable.add reachable.start)
  moreover have "assignActivities exactly ?parse (Inr studyReply) studyPlanner'
      = Some (Inr (), plannedDay)"
    by code_simp
  ultimately have "reachable exactly (fits exactly) plannedDay"
    by (rule reachable.batch)
  moreover have "ref lunch < fresh plannedDay" by (simp add: lunch_def plannedDay_def)
  moreover have "fits exactly lunch (Num 47)"
    by (simp add: fits_def lunch_def exactly_def numLe_def)
  ultimately have r: "reachable exactly (fits exactly) ?st" by (rule reachable.assign)
  have a: "assignments ?st
      = [\<lparr>activity = study1, startTime = Num 20\<rparr>, \<lparr>activity = study2, startTime = Num 10\<rparr>,
         \<lparr>activity = lunch, startTime = Num 47\<rparr>]"
    by code_simp
  from reachable_fits_day [OF rounds_exactly r]
  have "list_all (fitsDay exactly) (assignments ?st)"
    unfolding a by (simp add: study1_def study2_def lunch_def)
  with r a rounds_exactly show ?thesis by blast
qed

text \<open>
  C4 as stated fails, twice. \<open>addActivity\<close> then \<open>assignActivity\<close> at slot 46 stores an
  assignment of four slots that ends at slot 50. And an activity added with the
  duration NaN is placed by the batch path itself, at slot 5: NaN is not above 48, and
  it is not at most 48 either.
\<close>

theorem stored_past_end_of_day:
  "assignments (assignActivity (fst (addActivity ''Nap'' (Num 4) newPlanner)) (Num 46)
                  (snd (addActivity ''Nap'' (Num 4) newPlanner)))
     = [\<lparr>activity = \<lparr>ref = 0, title = ''Nap'', duration = Num 4\<rparr>, startTime = Num 46\<rparr>]
   \<and> \<not> allFit exactly (assignActivity (fst (addActivity ''Nap'' (Num 4) newPlanner)) (Num 46)
                  (snd (addActivity ''Nap'' (Num 4) newPlanner)))
   \<and> assignActivities exactly (parseAs walkReply (payload [proposal ''Walk'' 5]))
        (Inr walkReply) nanPlanner
     = Some (Inr (), \<lparr>activities = [walk],
                       assignments = [\<lparr>activity = walk, startTime = Num 5\<rparr>], fresh = 1\<rparr>)
   \<and> \<not> allFit exactly \<lparr>activities = [walk],
                       assignments = [\<lparr>activity = walk, startTime = Num 5\<rparr>], fresh = 1\<rparr>"
proof -
  have "assignActivities exactly (parseAs walkReply (payload [proposal ''Walk'' 5]))
        (Inr walkReply) nanPlanner
     = Some (Inr (), \<lparr>activities = [walk],
                       assignments = [\<lparr>activity = walk, startTime = Num 5\<rparr>], fresh = 1\<rparr>)"
    by code_simp
  then show ?thesis
    by (simp add: allFit_def fitsDay_def fits_def numLe_def exactly_def walk_def
        assignments_assignActivity addActivity_def newPlanner_def Let_def)
qed

section \<open>Queues by title\<close>

lemma foldl_addToPool:
  "foldl addToPool m un ttl =
     (if titled ttl un = [] then m ttl
      else Some ((case m ttl of None \<Rightarrow> [] | Some l \<Rightarrow> l) @ titled ttl un))"
proof (induction un arbitrary: m)
  case Nil
  show ?case by (simp add: titled_def)
next
  case (Cons a un)
  show ?case
    by (simp add: Cons.IH [of "addToPool m a"]) (simp add: addToPool_def titled_def)
qed

lemma initialValidation_pools:
  assumes "initialValidation rnd st un = Some v"
  shows "activitiesByTitle v = groupByTitle un" and "issues v = []"
    and "validatedAssignments v = []"
  using assms by (auto simp add: initialValidation_def split: option.splits)

lemma poolOf_initialValidation:
  assumes "initialValidation rnd st un = Some v"
  shows "poolOf v ttl = titled ttl un"
  by (simp add: poolOf_def initialValidation_pools [OF assms] groupByTitle_def foldl_addToPool)

lemma poolsTitled_initialValidation:
  assumes "initialValidation rnd st un = Some v"
  shows "poolsTitled v"
  by (auto simp add: poolsTitled_def initialValidation_pools [OF assms] groupByTitle_def
      foldl_addToPool titled_def split: if_splits)

lemma heldIn_initialValidation:
  assumes "initialValidation rnd st un = Some v"
  shows "heldIn (set un) v"
  by (auto simp add: heldIn_def initialValidation_pools [OF assms] groupByTitle_def
      foldl_addToPool titled_def split: if_splits)

lemma validateOne_pools:
  assumes "validateOne rnd v raw = Some v'" and "activitiesByTitle v' ttl = Some l"
  shows "\<exists>l0. activitiesByTitle v ttl = Some l0 \<and> set l \<subseteq> set l0"
  using assms
  by (auto simp add: validateOne_def pushIssue_def Let_def
      split: option.splits list.splits if_splits prod.splits)

lemma validateOne_heldIn:
  assumes "validateOne rnd v raw = Some v'" and "heldIn A v"
  shows "heldIn A v'"
proof -
  from assms(2) have pools: "\<And>ttl l. activitiesByTitle v ttl = Some l \<Longrightarrow> set l \<subseteq> A"
    and val: "fst ` set (validatedAssignments v) \<subseteq> A"
    by (simp_all add: heldIn_def)
  have "set l \<subseteq> A" if "activitiesByTitle v' ttl = Some l" for ttl l
  proof -
    from validateOne_pools [OF assms(1) that] obtain l0
      where "activitiesByTitle v ttl = Some l0" and "set l \<subseteq> set l0" by blast
    with pools show ?thesis by blast
  qed
  moreover have "fst ` set (validatedAssignments v') \<subseteq> A"
  proof (cases "issues v' = issues v")
    case True
    from validateOne_accept [OF assms(1) True] obtain ttl a pool t where
      p: "activitiesByTitle v ttl = Some (a # pool)"
      and v': "validatedAssignments v' = validatedAssignments v @ [(a, t)]"
      by auto
    from pools [OF p] have "a \<in> A" by simp
    with val show ?thesis unfolding v' by auto
  next
    case False
    from validateOne_reject [OF assms(1) False] val show ?thesis by simp
  qed
  ultimately show ?thesis by (simp add: heldIn_def)
qed

lemma validateLoop_heldIn:
  assumes "validateLoop rnd v raws = Some v'" and "heldIn A v"
  shows "heldIn A v'"
  using assms
proof (induction raws arbitrary: v)
  case Nil
  then show ?case by simp
next
  case (Cons raw raws)
  from Cons.prems(1) obtain v1 where one: "validateOne rnd v raw = Some v1"
    and rest: "validateLoop rnd v1 raws = Some v'"
    by (auto split: option.splits)
  from Cons.IH [OF rest validateOne_heldIn [OF one Cons.prems(2)]] show ?case .
qed

lemma validateAll_from_un:
  assumes "validateAll rnd st un raws = Some v"
  shows "fst ` set (validatedAssignments v) \<subseteq> set un"
proof -
  from assms obtain v0 where v0: "initialValidation rnd st un = Some v0"
    and loop: "validateLoop rnd v0 raws = Some v"
    by (auto simp add: validateAll_def split: option.splits)
  from validateLoop_heldIn [OF loop heldIn_initialValidation [OF v0]]
  show ?thesis by (simp add: heldIn_def)
qed

lemma accepted_run:
  assumes "validateLoop rnd v raws = Some v'" and "issues v' = issues v" and "poolsTitled v"
  shows "filter (\<lambda>p. title (fst p) = ttl) (validatedAssignments v')
     = filter (\<lambda>p. title (fst p) = ttl) (validatedAssignments v)
       @ zip (poolOf v ttl) (map (\<lambda>raw. the (proposalStart raw)) (proposalsFor ttl raws))"
  using assms
proof (induction raws arbitrary: v)
  case Nil
  then show ?case by (simp add: proposalsFor_def)
next
  case (Cons raw raws)
  from Cons.prems(1) obtain v1 where step: "validateOne rnd v raw = Some v1"
    and loop: "validateLoop rnd v1 raws = Some v'"
    by (auto split: option.splits)
  from validateLoop_issues [OF loop] obtain later
    where later: "issues v' = issues v1 @ later" by blast
  from validateOne_issues [OF step] later Cons.prems(2)
  have one: "issues v1 = issues v" and rest: "issues v' = issues v1"
    by auto
  from validateOne_accept [OF step one] obtain ttl' a pool t occ where
    pt: "proposalTitle raw = Some ttl'" and ps: "proposalStart raw = Some t"
    and pool: "activitiesByTitle v ttl' = Some (a # pool)"
    and v1: "v1 = v\<lparr>activitiesByTitle := (activitiesByTitle v)(ttl' \<mapsto> pool),
            occupiedSlots := occ,
            validatedAssignments := validatedAssignments v @ [(a, t)]\<rparr>"
    by blast
  from Cons.prems(3) pool have ta: "title a = ttl'" and tp: "\<forall>b\<in>set pool. title b = ttl'"
    by (auto simp add: poolsTitled_def)
  have inv1: "poolsTitled v1"
    using Cons.prems(3) tp unfolding v1 by (auto simp add: poolsTitled_def)
  note IH = Cons.IH [OF loop rest inv1]
  show ?case
  proof (cases "ttl' = ttl")
    case True
    have "poolOf v ttl = a # pool" using pool True by (simp add: poolOf_def)
    moreover have "poolOf v1 ttl = pool" unfolding v1 using True by (simp add: poolOf_def)
    moreover have "proposalsFor ttl (raw # raws) = raw # proposalsFor ttl raws"
      using pt True by (simp add: proposalsFor_def)
    moreover have "filter (\<lambda>p. title (fst p) = ttl) (validatedAssignments v1)
        = filter (\<lambda>p. title (fst p) = ttl) (validatedAssignments v) @ [(a, t)]"
      unfolding v1 using ta True by simp
    ultimately show ?thesis using IH ps by simp
  next
    case False
    have "poolOf v1 ttl = poolOf v ttl" unfolding v1 using False by (simp add: poolOf_def)
    moreover have "proposalsFor ttl (raw # raws) = proposalsFor ttl raws"
      using pt False by (simp add: proposalsFor_def)
    moreover have "filter (\<lambda>p. title (fst p) = ttl) (validatedAssignments v1)
        = filter (\<lambda>p. title (fst p) = ttl) (validatedAssignments v)"
      unfolding v1 using ta False by simp
    ultimately show ?thesis using IH by simp
  qed
qed

lemma accepted_batch_fifo:
  assumes "validateAll rnd st un raws = Some v" and "issues v = []"
  shows "filter (\<lambda>p. title (fst p) = ttl) (validatedAssignments v)
     = zip (titled ttl un) (map (\<lambda>raw. the (proposalStart raw)) (proposalsFor ttl raws))"
proof -
  from assms(1) obtain v0 where v0: "initialValidation rnd st un = Some v0"
    and loop: "validateLoop rnd v0 raws = Some v"
    by (auto simp add: validateAll_def split: option.splits)
  from assms(2) have "issues v = issues v0"
    by (simp add: initialValidation_pools [OF v0])
  from accepted_run [OF loop this poolsTitled_initialValidation [OF v0], of ttl]
  show ?thesis
    by (simp add: poolOf_initialValidation [OF v0] initialValidation_pools [OF v0])
qed

lemma applyAssignments_snoc:
  "applyAssignments st (vs @ [(a, t)]) = assignActivity a t (applyAssignments st vs)"
  by (simp add: applyAssignments_def)

lemma applyAssignments_once:
  assumes "filter (\<lambda>p. fst p = a) vs = [(a, t)]"
  shows "filter (\<lambda>x. activity x = a) (assignments (applyAssignments st vs))
           = [\<lparr>activity = a, startTime = t\<rparr>]"
  using assms
proof (induction vs rule: rev_induct)
  case Nil
  then show ?case by simp
next
  case (snoc p vs)
  obtain b s where p: "p = (b, s)" by (cases p)
  have none: "filter (\<lambda>x. activity x = a) (filter (\<lambda>x. activity x \<noteq> a) xs) = []"
    for xs :: "assignment list"
    by (induction xs) auto
  have other: "b \<noteq> a \<Longrightarrow> filter (\<lambda>x. activity x \<noteq> b \<and> activity x = a) xs
      = filter (\<lambda>x. activity x = a) xs" for xs :: "assignment list"
    by (induction xs) auto
  show ?case
  proof (cases "b = a")
    case True
    with snoc.prems p have "s = t" by (simp split: if_splits)
    with True p show ?thesis
      by (simp add: applyAssignments_snoc assignments_assignActivity none)
  next
    case False
    with snoc.prems p have "filter (\<lambda>p. fst p = a) vs = [(a, t)]" by simp
    from snoc.IH [OF this] False p show ?thesis
      by (simp add: applyAssignments_snoc assignments_assignActivity other)
  qed
qed

lemma filter_zip_absent:
  assumes "a \<notin> set xs"
  shows "filter (\<lambda>p. fst p = a) (zip xs ys) = []"
  using assms by (auto simp add: filter_empty_conv dest: set_zip_leftD)

text \<open>
  C5, as the code has it. Titles are resolved against per-title queues of the unassigned
  activities in their order of creation. When the batch is accepted (no issue is
  recorded), the first proposal for a title is bound to the first-created activity of
  that title and the second proposal to the second-created one, at the start times the
  proposals name, whatever the order of these start times.
\<close>

theorem fifo_binding:
  assumes "distinct un"
    and "jsonMatch text = Some m"
    and "jsonParse m = Some response"
    and "member response ''assignments'' = Some (JArr raws)"
    and "parseAndApplyAssignments rnd jsonParse text un st = Some (Inr (), st')"
    and "titled ttl un = a1 # a2 # others"
    and "proposalsFor ttl raws = p1 # p2 # rest"
    and "proposalStart p1 = Some t1"
    and "proposalStart p2 = Some t2"
  shows "filter (\<lambda>x. activity x = a1) (assignments st') = [\<lparr>activity = a1, startTime = t1\<rparr>]
       \<and> filter (\<lambda>x. activity x = a2) (assignments st') = [\<lparr>activity = a2, startTime = t2\<rparr>]"
proof -
  from assms(2-5) obtain v where v: "validateAll rnd st un raws = Some v"
    and ok: "issues v = []"
    and res: "st' = applyAssignments st (validatedAssignments v)"
    by (auto simp add: parseAndApplyAssignments_def truthy_def isArray_def elements_def
        split: option.splits if_splits)
  from assms(1) have "distinct (titled ttl un)" by (simp add: titled_def)
  with assms(6) have d: "a1 \<noteq> a2" "a1 \<notin> set others" "a2 \<notin> set others" by auto
  from assms(6) have "a1 \<in> set (titled ttl un)" "a2 \<in> set (titled ttl un)" by simp_all
  then have t1: "title a1 = ttl" and t2: "title a2 = ttl" by (simp_all add: titled_def)
  let ?ts = "map (\<lambda>raw. the (proposalStart raw)) rest"
  from accepted_batch_fifo [OF v ok, of ttl] assms(6-9)
  have fifo: "filter (\<lambda>p. title (fst p) = ttl) (validatedAssignments v)
      = (a1, t1) # (a2, t2) # zip others ?ts"
    by simp
  have narrow: "filter (\<lambda>p. fst p = a) (validatedAssignments v)
      = filter (\<lambda>p. fst p = a) (filter (\<lambda>p. title (fst p) = ttl) (validatedAssignments v))"
    if "title a = ttl" for a
    using that by (auto intro: filter_cong)
  have "filter (\<lambda>p. fst p = a1) (validatedAssignments v) = [(a1, t1)]"
    using d by (simp add: narrow [OF t1] fifo filter_zip_absent)
  moreover have "filter (\<lambda>p. fst p = a2) (validatedAssignments v) = [(a2, t2)]"
    using d by (simp add: narrow [OF t2] fifo filter_zip_absent)
  ultimately show ?thesis
    by (simp add: res applyAssignments_once)
qed

theorem fifo_binding_witness:
  "distinct [study1, study2, lunch]
   \<and> parseAndApplyAssignments exactly
        (parseAs studyReply (payload [proposal ''Study'' 20, proposal ''Study'' 10]))
        studyReply [study1, study2, lunch] studyPlanner = Some (Inr (), plannedDay)
   \<and> filter (\<lambda>x. activity x = study1) (assignments plannedDay)
       = [\<lparr>activity = study1, startTime = Num 20\<rparr>]
   \<and> filter (\<lambda>x. activity x = study2) (assignments plannedDay)
       = [\<lparr>activity = study2, startTime = Num 10\<rparr>]"
proof -
  let ?raws = "[proposal ''Study'' 20, proposal ''Study'' 10]"
  let ?parse = "parseAs studyReply (payload ?raws)"
  have h1: "distinct [study1, study2, lunch]"
    by (simp add: study1_def study2_def lunch_def)
  have h2: "jsonMatch studyReply = Some studyReply" by code_simp
  have h3: "?parse studyReply = Some (payload ?raws)" by (simp add: parseAs_def)
  have h4: "member (payload ?raws) ''assignments'' = Some (JArr ?raws)"
    by (simp add: member_def payload_def)
  have h5: "parseAndApplyAssignments exactly ?parse studyReply [study1, study2, lunch]
      studyPlanner = Some (Inr (), plannedDay)"
    by code_simp
  have h6: "titled ''Study'' [study1, study2, lunch] = study1 # study2 # []"
    by (simp add: titled_def study1_def study2_def lunch_def)
  have h7: "proposalsFor ''Study'' ?raws = proposal ''Study'' 20 # proposal ''Study'' 10 # []"
    by (simp add: proposalsFor_def proposalTitle_def proposal_def member_def asString_def)
  have h8: "proposalStart (proposal ''Study'' 20) = Some (Num 20)"
    by (simp add: proposalStart_def proposal_def member_def asInteger_def)
  have h9: "proposalStart (proposal ''Study'' 10) = Some (Num 10)"
    by (simp add: proposalStart_def proposal_def member_def asInteger_def)
  from fifo_binding [where jsonParse = ?parse, OF h1 h2 h3 h4 h5 h6 h7 h8 h9] h1 h5
  show ?thesis by blast
qed

text \<open>
  C5 as stated fails. Lunch holds slot 10 and two activities titled Study are
  unassigned. The first proposal for Study names slot 10 and conflicts, so the
  first-created Study goes back to the front of its queue; the second proposal, at slot
  20, is then resolved against the first-created Study again, not against the
  second-created one. The batch is rejected and the store is unchanged: neither
  activity is bound.
\<close>

theorem conflict_rebinds_first_created:
  "map_option validatedAssignments
      (validateAll exactly (assignActivity lunch (Num 10) studyPlanner) [study1, study2]
         [proposal ''Study'' 10, proposal ''Study'' 20])
     = Some [(study1, Num 20)]
   \<and> parseAndApplyAssignments exactly
        (parseAs conflictReply (payload [proposal ''Study'' 10, proposal ''Study'' 20]))
        conflictReply [study1, study2] (assignActivity lunch (Num 10) studyPlanner)
     = Some (Inl (DisallowedAssignments [SlotTaken (Num 10) ''Lunch'' ''Study'']),
             assignActivity lunch (Num 10) studyPlanner)"
  by code_simp

section \<open>Fresh activities\<close>

lemma alloc_ok_assignActivity:
  assumes "alloc_ok st" and "ref a < fresh st"
  shows "alloc_ok (assignActivity a t st)"
  using assms
  by (simp add: alloc_ok_def list_all_iff assignments_assignActivity activities_assignActivity
      fresh_assignActivity)

lemma fresh_applyAssignments:
  "fresh (applyAssignments st vs) = fresh st"
  by (induction vs arbitrary: st)
    (simp_all add: applyAssignments_def fresh_assignActivity split: prod.splits)

lemma alloc_ok_applyAssignments:
  assumes "alloc_ok st" and "\<forall>p\<in>set vs. ref (fst p) < fresh st"
  shows "alloc_ok (applyAssignments st vs)"
  using assms
proof (induction vs arbitrary: st)
  case Nil
  then show ?case by (simp add: applyAssignments_def)
next
  case (Cons p vs)
  obtain a t where p: "p = (a, t)" by (cases p)
  with Cons.prems have "alloc_ok (assignActivity a t st)"
    by (simp add: alloc_ok_assignActivity)
  moreover from Cons.prems have "\<forall>q\<in>set vs. ref (fst q) < fresh (assignActivity a t st)"
    by (simp add: fresh_assignActivity)
  ultimately have "alloc_ok (applyAssignments (assignActivity a t st) vs)"
    by (rule Cons.IH)
  with p show ?case by (simp add: applyAssignments_def)
qed

lemma alloc_ok_parseAndApplyAssignments:
  assumes "alloc_ok st" and "set un \<subseteq> set (activities st)"
    and "parseAndApplyAssignments rnd jsonParse text un st = Some (outcome, st')"
  shows "alloc_ok st'"
proof -
  have "alloc_ok (applyAssignments st (validatedAssignments v))"
    if "validateAll rnd st un raws = Some v" for raws v
  proof -
    from validateAll_from_un [OF that] assms(2)
    have "fst ` set (validatedAssignments v) \<subseteq> set (activities st)" by blast
    moreover from assms(1) have "\<forall>a\<in>set (activities st). ref a < fresh st"
      by (simp add: alloc_ok_def list_all_iff)
    ultimately have "\<forall>p\<in>set (validatedAssignments v). ref (fst p) < fresh st" by auto
    with assms(1) show ?thesis by (rule alloc_ok_applyAssignments)
  qed
  with assms(1,3) show ?thesis
    by (auto simp add: parseAndApplyAssignments_def split: option.splits if_splits)
qed

lemma alloc_ok_assignActivities:
  assumes "alloc_ok st"
    and "assignActivities rnd jsonParse llm st = Some (outcome, st')"
  shows "alloc_ok st'"
proof -
  let ?un = "filter (\<lambda>a. \<not> isAssigned a st) (activities st)"
  have "set ?un \<subseteq> set (activities st)" by auto
  from alloc_ok_parseAndApplyAssignments [OF assms(1) this] assms show ?thesis
    by (auto simp add: assignActivities_def Let_def split: sum.splits if_splits)
qed

lemma reachable_alloc_ok:
  assumes "reachable rnd ok st"
  shows "alloc_ok st"
  using assms
proof (induction rule: reachable.induct)
  case start
  show ?case by (simp add: alloc_ok_def newPlanner_def)
next
  case (add st t d)
  then show ?case
    by (auto simp add: alloc_ok_def list_all_iff addActivity_def Let_def less_Suc_eq)
next
  case (create st)
  then show ?case by (auto simp add: alloc_ok_def list_all_iff callerCreates_def less_Suc_eq)
next
  case (remove st a)
  then show ?case by (simp add: alloc_ok_def list_all_iff removeActivity_def)
next
  case (assign st a t)
  then show ?case by (simp add: alloc_ok_assignActivity)
next
  case (unassign st a)
  then show ?case by (simp add: alloc_ok_def list_all_iff unassignActivity_def)
next
  case (batch st jsonParse llm outcome st')
  from alloc_ok_assignActivities [OF batch.IH batch.hyps(2)] show ?case .
qed

text \<open>
  C3, as the code has it: \<open>addActivity\<close> checks nothing and never fails. For every title
  and every duration, the empty title and durations outside 0..47 included, it appends
  and returns a new object: one that differs from every object created before the
  call, and so, in every state the operations reach, from every activity the store
  holds in its activities or in its assignments.
\<close>

theorem addActivity_fresh:
  "title (fst (addActivity t d st)) = t
   \<and> duration (fst (addActivity t d st)) = d
   \<and> activities (snd (addActivity t d st)) = activities st @ [fst (addActivity t d st)]
   \<and> assignments (snd (addActivity t d st)) = assignments st
   \<and> (\<forall>b. ref b < fresh st \<longrightarrow> fst (addActivity t d st) \<noteq> b)
   \<and> (reachable rnd ok st \<longrightarrow>
        fst (addActivity t d st) \<notin> set (activities st)
        \<and> fst (addActivity t d st) \<notin> activity ` set (assignments st))"
proof -
  let ?a = "\<lparr>ref = fresh st, title = t, duration = d\<rparr>"
  have a: "fst (addActivity t d st) = ?a" by (simp add: addActivity_def Let_def)
  have new: "\<forall>b. ref b < fresh st \<longrightarrow> ?a \<noteq> b" by auto
  have "?a \<notin> set (activities st) \<and> ?a \<notin> activity ` set (assignments st)"
    if "reachable rnd ok st"
  proof -
    from reachable_alloc_ok [OF that] have old: "\<forall>b\<in>set (activities st). ref b < fresh st"
      and asg: "\<forall>x\<in>set (assignments st). ref (activity x) < fresh st"
      by (simp_all add: alloc_ok_def list_all_iff)
    from old new have "?a \<notin> set (activities st)" by blast
    moreover from asg new have "?a \<notin> activity ` set (assignments st)" by blast
    ultimately show ?thesis ..
  qed
  with new show ?thesis
    by (simp add: addActivity_def Let_def)
qed

theorem addActivity_fresh_witness:
  "reachable exactly anyStart (assignActivity gym0 (Num 5) (callerCreates newPlanner))
   \<and> assignments (assignActivity gym0 (Num 5) (callerCreates newPlanner))
       = [\<lparr>activity = gym0, startTime = Num 5\<rparr>]
   \<and> fst (addActivity [] (Num 48) (assignActivity gym0 (Num 5) (callerCreates newPlanner)))
       = \<lparr>ref = 1, title = [], duration = Num 48\<rparr>
   \<and> fst (addActivity [] (Num 48) (assignActivity gym0 (Num 5) (callerCreates newPlanner)))
       \<notin> activity ` set (assignments (assignActivity gym0 (Num 5) (callerCreates newPlanner)))"
proof -
  let ?st = "assignActivity gym0 (Num 5) (callerCreates newPlanner)"
  have "reachable exactly anyStart (callerCreates newPlanner)"
    by (intro reachable.create reachable.start)
  moreover have "ref gym0 < fresh (callerCreates newPlanner)"
    by (simp add: gym0_def callerCreates_def newPlanner_def)
  moreover have "anyStart gym0 (Num 5)" by (simp add: anyStart_def)
  ultimately have r: "reachable exactly anyStart ?st" by (rule reachable.assign)
  have a: "assignments ?st = [\<lparr>activity = gym0, startTime = Num 5\<rparr>]"
    by (simp add: assignments_assignActivity callerCreates_def newPlanner_def)
  have n: "fst (addActivity [] (Num 48) ?st) = \<lparr>ref = 1, title = [], duration = Num 48\<rparr>"
    by (simp add: addActivity_def Let_def fresh_assignActivity callerCreates_def newPlanner_def)
  from addActivity_fresh [of "[]" "Num 48" ?st exactly anyStart] r
  have "fst (addActivity [] (Num 48) ?st) \<notin> activity ` set (assignments ?st)"
    by blast
  with r a n show ?thesis by blast
qed

text \<open>
  C3 as stated fails: with the empty title and the duration 48, and with the durations
  \<open>-1\<close> and NaN, the call returns an activity and stores it; nothing is rejected.
\<close>

theorem addActivity_accepts_invalid:
  "addActivity [] (Num 48) newPlanner
     = (\<lparr>ref = 0, title = [], duration = Num 48\<rparr>,
        \<lparr>activities = [\<lparr>ref = 0, title = [], duration = Num 48\<rparr>], assignments = [],
           fresh = 1\<rparr>)
   \<and> activities (snd (addActivity ''Gym'' (Num (- 1)) newPlanner))
     = [\<lparr>ref = 0, title = ''Gym'', duration = Num (- 1)\<rparr>]
   \<and> activities (snd (addActivity ''Walk'' NaN newPlanner)) = [walk]"
  by (simp add: addActivity_def newPlanner_def Let_def walk_def)

end
